theory Spec2Isabelle
  imports Complex_Main "HOL-Library.AList" "HOL-Library.Word"
begin

section \<open>The profiler database of JavaScriptCore (ProfilerDatabase.cpp)\<close>

text \<open>
  A shallow embedding of \<^verbatim>\<open>JSC::Profiler::Database\<close>. Each member function is a HOL
  function that takes the object (and, for the functions that touch the at-exit list, the
  whole process state) and returns the updated one. The locks of the source
  (\<^verbatim>\<open>m_lock\<close>, \<^verbatim>\<open>registrationLock\<close>) make every member function one atomic
  step; the embedding is sequential and has these steps as its unit.
\<close>

subsection \<open>Data\<close>

text \<open>Pointers are addresses. A \<^verbatim>\<open>CodeBlock*\<close>, a \<^verbatim>\<open>Compilation*\<close>, a
  \<^verbatim>\<open>Database*\<close> and a \<^verbatim>\<open>VM&\<close> are natural numbers; a pointer that may be null is an
  option.\<close>

type_synonym codeBlock = nat
type_synonym compilation = nat
type_synonym dbptr = nat
type_synonym vmref = nat

text \<open>Modelled from the spec: the class \<^verbatim>\<open>Bytecodes\<close> (ProfilerBytecodes.h) is not part of
  the sources at hand. The constructor call \<^verbatim>\<open>Bytecodes(m_bytecodes.size(), codeBlock)\<close>
  and the spec ("a store-local sequential index ... and a reference to the canonical unit
  handle") give its two attributes. The index is a \<^verbatim>\<open>size_t\<close> that is always the length
  of a vector in memory, so it is a natural number here.\<close>

record bytecodes =
  b_id :: nat
  b_codeBlock :: codeBlock

text \<open>Modelled from the spec: the class \<^verbatim>\<open>Event\<close> (ProfilerEvent.h) is not part of the
  sources at hand. Its fields are the five constructor arguments of
  \<^verbatim>\<open>Event(currentTime(), bytecodes, compilation, summary, detail)\<close>. The
  \<^verbatim>\<open>Bytecodes*\<close> points into \<^verbatim>\<open>m_bytecodes\<close>, a segmented vector whose elements never
  move: the pointer is the position of the element. The \<^verbatim>\<open>Compilation*\<close> is null when
  the lookup found nothing. The time stamp is a \<^verbatim>\<open>double\<close> that is stored and never
  computed with.\<close>

record event =
  e_time :: real
  e_bytecodes :: nat
  e_compilation :: "compilation option"
  e_summary :: string
  e_detail :: string

text \<open>Modelled from the spec: \<^verbatim>\<open>WTF::HashMap\<close> is not part of the sources at hand. The
  spec's lookup index with unique keys is an association list here; the five operations
  the source uses are \<^verbatim>\<open>find\<close>, \<^verbatim>\<open>get\<close> (null when the key is absent), \<^verbatim>\<open>add\<close>
  (which leaves an existing entry alone), \<^verbatim>\<open>set\<close> (which overwrites) and
  \<^verbatim>\<open>remove\<close>. No function of the source iterates over a map, so the order of the list
  stands for nothing.\<close>

type_synonym ('k, 'v) hashMap = "('k \<times> 'v) list"

definition hm_find :: "('k, 'v) hashMap \<Rightarrow> 'k \<Rightarrow> 'v option" where
  "hm_find m k = map_of m k"

definition hm_get :: "('k, 'v) hashMap \<Rightarrow> 'k \<Rightarrow> 'v option" where
  "hm_get m k = map_of m k"

definition hm_add :: "'k \<Rightarrow> 'v \<Rightarrow> ('k, 'v) hashMap \<Rightarrow> ('k, 'v) hashMap" where
  "hm_add k v m = (if map_of m k = None then m @ [(k, v)] else m)"

definition hm_set :: "'k \<Rightarrow> 'v \<Rightarrow> ('k, 'v) hashMap \<Rightarrow> ('k, 'v) hashMap" where
  "hm_set k v m = AList.update k v m"

definition hm_remove :: "'k \<Rightarrow> ('k, 'v) hashMap \<Rightarrow> ('k, 'v) hashMap" where
  "hm_remove k m = AList.delete k m"

text \<open>The members of \<^verbatim>\<open>Database\<close>. \<^verbatim>\<open>m_bytecodesMap\<close> maps a code block to a
  \<^verbatim>\<open>Bytecodes*\<close>, that is to a position of \<^verbatim>\<open>m_bytecodes\<close>.\<close>

record database =
  m_databaseID :: "32 word"
  m_vm :: vmref
  m_bytecodes :: "bytecodes list"
  m_bytecodesMap :: "(codeBlock, nat) hashMap"
  m_compilations :: "compilation list"
  m_compilationMap :: "(codeBlock, compilation) hashMap"
  m_events :: "event list"
  m_shouldSaveAtExit :: bool
  m_atExitSaveFilename :: string
  m_nextRegisteredDatabase :: "dbptr option"

subsection \<open>The store operations\<close>

text \<open>\<^verbatim>\<open>CodeBlock::baselineVersion\<close> belongs to the host runtime; it is the parameter
  \<open>baselineVersion\<close> of the functions that call it.\<close>

definition ensureBytecodesFor_locked ::
  "(codeBlock \<Rightarrow> codeBlock) \<Rightarrow> codeBlock \<Rightarrow> database \<Rightarrow> nat \<times> database" where
  "ensureBytecodesFor_locked baselineVersion codeBlock db =
     (let codeBlock = baselineVersion codeBlock in
      case hm_find (m_bytecodesMap db) codeBlock of
        Some iter_value \<Rightarrow> (iter_value, db)
      | None \<Rightarrow>
          (let db = db\<lparr>m_bytecodes := m_bytecodes db @
                         [\<lparr>b_id = length (m_bytecodes db), b_codeBlock = codeBlock\<rparr>]\<rparr>;
               result = length (m_bytecodes db) - 1;
               db = db\<lparr>m_bytecodesMap := hm_add codeBlock result (m_bytecodesMap db)\<rparr>
           in (result, db)))"

definition ensureBytecodesFor ::
  "(codeBlock \<Rightarrow> codeBlock) \<Rightarrow> codeBlock \<Rightarrow> database \<Rightarrow> nat \<times> database" where
  "ensureBytecodesFor baselineVersion codeBlock db =
     ensureBytecodesFor_locked baselineVersion codeBlock db"

definition notifyDestruction :: "codeBlock \<Rightarrow> database \<Rightarrow> database" where
  "notifyDestruction codeBlock db =
     (let db = db\<lparr>m_bytecodesMap := hm_remove codeBlock (m_bytecodesMap db)\<rparr>
      in db\<lparr>m_compilationMap := hm_remove codeBlock (m_compilationMap db)\<rparr>)"

text \<open>\<^verbatim>\<open>ASSERT(!isCompilationThread())\<close> stops a debug build that calls
  \<^verbatim>\<open>addCompilation\<close> on a compilation thread and is compiled out of a release build.
  \<open>assertEnabled\<close> says which build it is and \<open>isCompilationThread\<close> what the call of that
  name returns; the stopped call is \<open>None\<close>.\<close>

definition addCompilation ::
  "bool \<Rightarrow> bool \<Rightarrow> codeBlock \<Rightarrow> compilation \<Rightarrow> database \<Rightarrow> database option" where
  "addCompilation assertEnabled isCompilationThread codeBlock passedCompilation db =
     (if assertEnabled \<and> isCompilationThread then None
      else
        (let compilation = passedCompilation;
             db = db\<lparr>m_compilations := m_compilations db @ [compilation]\<rparr>
         in Some (db\<lparr>m_compilationMap := hm_set codeBlock compilation (m_compilationMap db)\<rparr>)))"

text \<open>\<^verbatim>\<open>currentTime()\<close> reads the clock; what it returns is the argument \<open>now\<close>.\<close>

definition logEvent ::
  "(codeBlock \<Rightarrow> codeBlock) \<Rightarrow> real \<Rightarrow> codeBlock \<Rightarrow> string \<Rightarrow> string \<Rightarrow> database \<Rightarrow> database" where
  "logEvent baselineVersion now codeBlock summary detail db =
     (case ensureBytecodesFor_locked baselineVersion codeBlock db of
        (bytecodes, db) \<Rightarrow>
          (let compilation = hm_get (m_compilationMap db) codeBlock
           in db\<lparr>m_events := m_events db @
                    [\<lparr>e_time = now, e_bytecodes = bytecodes, e_compilation = compilation,
                      e_summary = summary, e_detail = detail\<rparr>]\<rparr>))"

text \<open>The constructor. \<^verbatim>\<open>++databaseCounter\<close> increments the process-wide
  \<^verbatim>\<open>std::atomic<int>\<close>, which wraps; the function returns the new counter with the
  object. The members that the initialiser list does not name are empty.\<close>

definition Database_ctor :: "32 word \<Rightarrow> vmref \<Rightarrow> 32 word \<times> database" where
  "Database_ctor databaseCounter vm =
     (databaseCounter + 1,
      \<lparr>m_databaseID = databaseCounter + 1, m_vm = vm,
       m_bytecodes = [], m_bytecodesMap = [],
       m_compilations = [], m_compilationMap = [],
       m_events = [],
       m_shouldSaveAtExit = False, m_atExitSaveFilename = [],
       m_nextRegisteredDatabase = None\<rparr>)"

subsection \<open>Sequences of store operations\<close>

text \<open>A call of one of the four mutating member functions, with its arguments (for
  \<^verbatim>\<open>addCompilation\<close> also what \<^verbatim>\<open>isCompilationThread()\<close> returns on the calling
  thread, for \<^verbatim>\<open>logEvent\<close> what the clock shows).\<close>

datatype storeOp =
    EnsureBytecodesFor codeBlock
  | NotifyDestruction codeBlock
  | AddCompilation bool codeBlock compilation
  | LogEvent real codeBlock string string

text \<open>One call: the object after it and, for \<^verbatim>\<open>ensureBytecodesFor\<close>, the argument
  with the pointer returned. \<open>None\<close> is a call stopped by the assertion.\<close>

fun applyOp :: "(codeBlock \<Rightarrow> codeBlock) \<Rightarrow> bool \<Rightarrow> storeOp \<Rightarrow> database \<Rightarrow>
    ((codeBlock \<times> nat) list \<times> database) option" where
  "applyOp bv ae (EnsureBytecodesFor h) db =
     (case ensureBytecodesFor bv h db of (p, db') \<Rightarrow> Some ([(h, p)], db'))"
| "applyOp bv ae (NotifyDestruction h) db = Some ([], notifyDestruction h db)"
| "applyOp bv ae (AddCompilation ict h r) db =
     (case addCompilation ae ict h r db of None \<Rightarrow> None | Some db' \<Rightarrow> Some ([], db'))"
| "applyOp bv ae (LogEvent now h summary detail) db =
     Some ([], logEvent bv now h summary detail db)"

text \<open>A sequence of calls, in order; the pointers returned are collected in call order.\<close>

fun runOps :: "(codeBlock \<Rightarrow> codeBlock) \<Rightarrow> bool \<Rightarrow> storeOp list \<Rightarrow> database \<Rightarrow>
    ((codeBlock \<times> nat) list \<times> database) option" where
  "runOps bv ae [] db = Some ([], db)"
| "runOps bv ae (op # ops) db =
     (case applyOp bv ae op db of
        None \<Rightarrow> None
      | Some (out, db') \<Rightarrow>
          (case runOps bv ae ops db' of
             None \<Rightarrow> None
           | Some (outs, db'') \<Rightarrow> Some (out @ outs, db'')))"

text \<open>Whether a call is \<^verbatim>\<open>notifyDestruction\<close> of the code block \<open>c\<close>.\<close>

fun notifies :: "codeBlock \<Rightarrow> storeOp \<Rightarrow> bool" where
  "notifies c (NotifyDestruction h) = (h = c)"
| "notifies c _ = False"

text \<open>The compilations that the \<^verbatim>\<open>addCompilation\<close> calls of a sequence pass, in call
  order.\<close>

fun addedCompilations :: "storeOp list \<Rightarrow> compilation list" where
  "addedCompilations [] = []"
| "addedCompilations (AddCompilation ict h r # ops) = r # addedCompilations ops"
| "addedCompilations (_ # ops) = addedCompilations ops"

text \<open>Whether a call is one that resolves the unit profile of the canonical handle \<open>c\<close>:
  \<^verbatim>\<open>ensureBytecodesFor\<close> or \<^verbatim>\<open>logEvent\<close> with a handle whose baseline version is
  \<open>c\<close>.\<close>

fun resolves :: "(codeBlock \<Rightarrow> codeBlock) \<Rightarrow> codeBlock \<Rightarrow> storeOp \<Rightarrow> bool" where
  "resolves bv c (EnsureBytecodesFor h) = (bv h = c)"
| "resolves bv c (LogEvent now h summary detail) = (bv h = c)"
| "resolves bv c _ = False"

subsection \<open>The store invariant\<close>

text \<open>Every entry of \<^verbatim>\<open>m_bytecodesMap\<close> points to an element of \<^verbatim>\<open>m_bytecodes\<close>, every
  entry of \<^verbatim>\<open>m_compilationMap\<close> is an element of \<^verbatim>\<open>m_compilations\<close>, no key occurs
  twice in either map, and the element at position \<open>i\<close> of \<^verbatim>\<open>m_bytecodes\<close> has the
  identifier \<open>i\<close>.\<close>

definition storeInvariant :: "database \<Rightarrow> bool" where
  "storeInvariant db \<longleftrightarrow>
     list_all (\<lambda>(k, p). p < length (m_bytecodes db)) (m_bytecodesMap db) \<and>
     list_all (\<lambda>(k, c). c \<in> set (m_compilations db)) (m_compilationMap db) \<and>
     distinct (map fst (m_bytecodesMap db)) \<and>
     distinct (map fst (m_compilationMap db)) \<and>
     map b_id (m_bytecodes db) = [0..<length (m_bytecodes db)]"

text \<open>The unit profile that an entry of \<^verbatim>\<open>m_bytecodesMap\<close> points to was made for the
  key of the entry.\<close>

definition bytecodesMapConsistent :: "database \<Rightarrow> bool" where
  "bytecodesMapConsistent db \<longleftrightarrow>
     list_all (\<lambda>(k, p). p < length (m_bytecodes db) \<and> b_codeBlock (m_bytecodes db ! p) = k)
       (m_bytecodesMap db)"

text \<open>How many elements of \<^verbatim>\<open>m_bytecodes\<close> were made for the code block \<open>c\<close>.\<close>

definition profilesFor :: "codeBlock \<Rightarrow> database \<Rightarrow> nat" where
  "profilesFor c db = length (filter (\<lambda>b. b_codeBlock b = c) (m_bytecodes db))"

subsection \<open>Serialization\<close>

text \<open>The values that \<^verbatim>\<open>toJS\<close> builds. An object is the list of its properties in the
  order in which they were added; an array is the list of its elements.\<close>

datatype jsValue =
    JSUndefined
  | JSNull
  | JSNumber real
  | JSString string
  | JSArray "jsValue list"
  | JSObject "(string \<times> jsValue) list"

text \<open>Modelled from the spec: \<^verbatim>\<open>JSObject::putDirectIndex\<close> and \<^verbatim>\<open>JSObject::putDirect\<close>
  are not part of the sources at hand. \<open>putDirectIndex\<close> stores an element at an index
  of an array and, as arrays of the language do, extends the array with holes when the
  index is beyond its end. \<open>putDirect\<close> defines a property: a new one is added after
  those there are, one of the same name is replaced where it stands.\<close>

definition putDirectIndex :: "jsValue list \<Rightarrow> nat \<Rightarrow> jsValue \<Rightarrow> jsValue list" where
  "putDirectIndex array i v =
     (if i < length array then array[i := v]
      else array @ replicate (i - length array) JSUndefined @ [v])"

definition putDirect ::
  "(string \<times> jsValue) list \<Rightarrow> string \<Rightarrow> jsValue \<Rightarrow> (string \<times> jsValue) list" where
  "putDirect object name v = AList.update name v object"

text \<open>What the host runtime and the libraries contribute to the serialization: the
  \<^verbatim>\<open>toJS\<close> member functions of \<^verbatim>\<open>Bytecodes\<close>, \<^verbatim>\<open>Compilation\<close> and \<^verbatim>\<open>Event\<close>, and
  \<^verbatim>\<open>JSONStringify\<close>. They are parameters of the model.\<close>

record host =
  bytecodes_toJS :: "bytecodes \<Rightarrow> jsValue"
  compilation_toJS :: "compilation \<Rightarrow> jsValue"
  event_toJS :: "event \<Rightarrow> jsValue"
  JSONStringify :: "jsValue \<Rightarrow> string"

text \<open>The three loops of \<^verbatim>\<open>toJS\<close> have one shape:
  \<^verbatim>\<open>for (unsigned i = 0; i < v.size(); ++i) array->putDirectIndex(exec, i, v[i].toJS(exec))\<close>.
  The counter is an \<^verbatim>\<open>unsigned\<close>, 32 bits wide, that wraps; it is compared with a
  size that does not. A loop that does not end has no result: \<open>None\<close>.\<close>

partial_function (option) toJS_loop ::
  "('a \<Rightarrow> jsValue) \<Rightarrow> 'a list \<Rightarrow> 32 word \<Rightarrow> jsValue list \<Rightarrow> jsValue list option" where
  "toJS_loop elementToJS v i array =
     (if unat i < length v
      then toJS_loop elementToJS v (i + 1)
             (putDirectIndex array (unat i) (elementToJS (v ! unat i)))
      else Some array)"

declare toJS_loop.simps [code]

text \<open>Modelled from the spec: the property names \<^verbatim>\<open>exec->propertyNames().bytecodes\<close>,
  \<^verbatim>\<open>.compilations\<close> and \<^verbatim>\<open>.events\<close> come from a table that is not part of the
  sources at hand; the spec gives the names \<^verbatim>\<open>bytecodes\<close>, \<^verbatim>\<open>compilations\<close> and
  \<^verbatim>\<open>events\<close>.\<close>

definition toJS :: "host \<Rightarrow> database \<Rightarrow> jsValue option" where
  "toJS host db =
     (let result = [] in
      case toJS_loop (bytecodes_toJS host) (m_bytecodes db) 0 [] of
        None \<Rightarrow> None
      | Some bytecodes \<Rightarrow>
     (let result = putDirect result ''bytecodes'' (JSArray bytecodes) in
      case toJS_loop (compilation_toJS host) (m_compilations db) 0 [] of
        None \<Rightarrow> None
      | Some compilations \<Rightarrow>
     (let result = putDirect result ''compilations'' (JSArray compilations) in
      case toJS_loop (event_toJS host) (m_events db) 0 [] of
        None \<Rightarrow> None
      | Some events \<Rightarrow>
     (let result = putDirect result ''events'' (JSArray events) in
      Some (JSObject result)))))"

definition toJSON :: "host \<Rightarrow> database \<Rightarrow> string option" where
  "toJSON host db =
     (case toJS host db of None \<Rightarrow> None | Some v \<Rightarrow> Some (JSONStringify host v))"

text \<open>Each of the three collections has fewer entries than the loop counter has values.
  The header that declares the collections, and with it the type of their sizes, is not
  part of the sources at hand; the lists of the model have no bound, so the bound is
  stated where the loops are run.\<close>

definition serializable :: "database \<Rightarrow> bool" where
  "serializable db \<longleftrightarrow>
     length (m_bytecodes db) < 2 ^ 32 \<and> length (m_compilations db) < 2 ^ 32 \<and>
     length (m_events db) < 2 ^ 32"

subsection \<open>Saving to a file\<close>

text \<open>Modelled from the spec: \<^verbatim>\<open>FilePrintStream\<close> is not part of the sources at hand;
  the spec has the file opened for writing, truncating it. The files of the machine are:
  which names \<^verbatim>\<open>FilePrintStream::open(name, "w")\<close> can open, what each file holds, and
  the names that were passed to \<^verbatim>\<open>open\<close>, in call order. Opening a file for writing
  empties it; \<^verbatim>\<open>print\<close> adds text at its end, and every write to an open file
  succeeds.\<close>

record fileSystem =
  canOpen :: "string \<Rightarrow> bool"
  files :: "string \<rightharpoonup> string"
  openCalls :: "string list"

definition FilePrintStream_open :: "string \<Rightarrow> fileSystem \<Rightarrow> bool \<times> fileSystem" where
  "FilePrintStream_open filename fs =
     (let fs = fs\<lparr>openCalls := openCalls fs @ [filename]\<rparr> in
      if canOpen fs filename then (True, fs\<lparr>files := (files fs)(filename \<mapsto> [])\<rparr>)
      else (False, fs))"

definition FilePrintStream_print :: "string \<Rightarrow> string \<Rightarrow> fileSystem \<Rightarrow> fileSystem" where
  "FilePrintStream_print filename text fs =
     fs\<lparr>files := (files fs)(filename \<mapsto>
        (case files fs filename of None \<Rightarrow> [] | Some old \<Rightarrow> old) @ text)\<rparr>"

text \<open>\<^verbatim>\<open>save\<close> is a \<^verbatim>\<open>const\<close> member function: it returns its result and the files, and
  has no database to return.\<close>

definition save :: "host \<Rightarrow> database \<Rightarrow> string \<Rightarrow> fileSystem \<Rightarrow> (bool \<times> fileSystem) option" where
  "save host db filename fs =
     (case FilePrintStream_open filename fs of
        (False, fs) \<Rightarrow> Some (False, fs)
      | (True, fs) \<Rightarrow>
          (case toJSON host db of
             None \<Rightarrow> None
           | Some text \<Rightarrow> Some (True, FilePrintStream_print filename text fs)))"

subsection \<open>The process: the databases and the at-exit list\<close>

text \<open>The state of the process that the at-exit functions read and write: the three
  static variables of the source, the functions registered with \<^verbatim>\<open>atexit\<close> (only
  \<^verbatim>\<open>atExitCallback\<close> is ever registered, so their number is all there is to know), the
  \<^verbatim>\<open>Database\<close> objects by address, and the files. \<^verbatim>\<open>atExitSaves\<close> is a history
  variable, not a variable of the source: it records every call of
  \<^verbatim>\<open>performAtExitSave\<close>, with the object and the file name, in call order. The two
  counters are \<^verbatim>\<open>std::atomic<int>\<close> and wrap.\<close>

record process =
  databaseCounter :: "32 word"
  didRegisterAtExit :: "32 word"
  firstDatabase :: "dbptr option"
  atexitRegistered :: nat
  heap :: "dbptr \<Rightarrow> database"
  disk :: fileSystem
  atExitSaves :: "(dbptr \<times> string) list"

text \<open>Reading and writing a member of the object at an address.\<close>

definition setShouldSaveAtExit :: "dbptr \<Rightarrow> bool \<Rightarrow> process \<Rightarrow> process" where
  "setShouldSaveAtExit this v s =
     s\<lparr>heap := (heap s)(this := (heap s this)\<lparr>m_shouldSaveAtExit := v\<rparr>)\<rparr>"

definition setAtExitSaveFilename :: "dbptr \<Rightarrow> string \<Rightarrow> process \<Rightarrow> process" where
  "setAtExitSaveFilename this v s =
     s\<lparr>heap := (heap s)(this := (heap s this)\<lparr>m_atExitSaveFilename := v\<rparr>)\<rparr>"

definition setNextRegisteredDatabase :: "dbptr \<Rightarrow> dbptr option \<Rightarrow> process \<Rightarrow> process" where
  "setNextRegisteredDatabase this v s =
     s\<lparr>heap := (heap s)(this := (heap s this)\<lparr>m_nextRegisteredDatabase := v\<rparr>)\<rparr>"

text \<open>The constructor, for an object at the address \<open>this\<close>.\<close>

definition construct :: "dbptr \<Rightarrow> vmref \<Rightarrow> process \<Rightarrow> process" where
  "construct this vm s =
     (case Database_ctor (databaseCounter s) vm of
        (counter, db) \<Rightarrow> s\<lparr>databaseCounter := counter, heap := (heap s)(this := db)\<rparr>)"

definition addDatabaseToAtExit :: "dbptr \<Rightarrow> process \<Rightarrow> process" where
  "addDatabaseToAtExit this s =
     (let s = s\<lparr>didRegisterAtExit := didRegisterAtExit s + 1\<rparr>;
          s = (if didRegisterAtExit s = 1 then s\<lparr>atexitRegistered := atexitRegistered s + 1\<rparr>
               else s);
          s = setNextRegisteredDatabase this (firstDatabase s) s
      in s\<lparr>firstDatabase := Some this\<rparr>)"

definition registerToSaveAtExit :: "dbptr \<Rightarrow> string \<Rightarrow> process \<Rightarrow> process" where
  "registerToSaveAtExit this filename s =
     (let s = setAtExitSaveFilename this filename s in
      if m_shouldSaveAtExit (heap s this) then s
      else
        (let s = addDatabaseToAtExit this s
         in setShouldSaveAtExit this True s))"

text \<open>\<^verbatim>\<open>Database** current\<close> of \<^verbatim>\<open>removeDatabaseFromAtExit\<close> points either to the static
  variable \<^verbatim>\<open>firstDatabase\<close> or to the member \<^verbatim>\<open>m_nextRegisteredDatabase\<close> of an
  object.\<close>

datatype location = FirstDatabase | NextRegisteredDatabase dbptr

fun readLocation :: "process \<Rightarrow> location \<Rightarrow> dbptr option" where
  "readLocation s FirstDatabase = firstDatabase s"
| "readLocation s (NextRegisteredDatabase p) = m_nextRegisteredDatabase (heap s p)"

fun writeLocation :: "location \<Rightarrow> dbptr option \<Rightarrow> process \<Rightarrow> process" where
  "writeLocation FirstDatabase v s = s\<lparr>firstDatabase := v\<rparr>"
| "writeLocation (NextRegisteredDatabase p) v s = setNextRegisteredDatabase p v s"

text \<open>The loop of \<^verbatim>\<open>removeDatabaseFromAtExit\<close>, from the location \<open>current\<close> on. On a list
  that runs in a circle and does not hold \<open>this\<close> the loop does not end: \<open>None\<close>.\<close>

partial_function (option) removeDatabaseFromAtExit_loop ::
  "dbptr \<Rightarrow> location \<Rightarrow> process \<Rightarrow> process option" where
  "removeDatabaseFromAtExit_loop this current s =
     (case readLocation s current of
        None \<Rightarrow> Some s
      | Some p \<Rightarrow>
          if p \<noteq> this
          then removeDatabaseFromAtExit_loop this (NextRegisteredDatabase p) s
          else
            (let s = writeLocation current (m_nextRegisteredDatabase (heap s this)) s;
                 s = setNextRegisteredDatabase this None s;
                 s = setShouldSaveAtExit this False s
             in Some s))"

declare removeDatabaseFromAtExit_loop.simps [code]

definition removeDatabaseFromAtExit :: "dbptr \<Rightarrow> process \<Rightarrow> process option" where
  "removeDatabaseFromAtExit this s = removeDatabaseFromAtExit_loop this FirstDatabase s"

text \<open>\<^verbatim>\<open>performAtExitSave\<close> calls \<^verbatim>\<open>save\<close> with the recorded file name and drops what
  \<^verbatim>\<open>save\<close> returns.\<close>

definition performAtExitSave :: "host \<Rightarrow> dbptr \<Rightarrow> process \<Rightarrow> process option" where
  "performAtExitSave host this s =
     (let filename = m_atExitSaveFilename (heap s this);
          s = s\<lparr>atExitSaves := atExitSaves s @ [(this, filename)]\<rparr>
      in case save host (heap s this) filename (disk s) of
           None \<Rightarrow> None
         | Some (ok, fs) \<Rightarrow> Some (s\<lparr>disk := fs\<rparr>))"

text \<open>The destructor. After it the object is gone; the model keeps the record at its
  address, which nothing may use any more.\<close>

definition destruct :: "host \<Rightarrow> dbptr \<Rightarrow> process \<Rightarrow> process option" where
  "destruct host this s =
     (if m_shouldSaveAtExit (heap s this)
      then (case removeDatabaseFromAtExit this s of
              None \<Rightarrow> None
            | Some s \<Rightarrow> performAtExitSave host this s)
      else Some s)"

definition removeFirstAtExitDatabase :: "process \<Rightarrow> dbptr option \<times> process" where
  "removeFirstAtExitDatabase s =
     (let result = firstDatabase s in
      case result of
        None \<Rightarrow> (result, s)
      | Some r \<Rightarrow>
          (let s = s\<lparr>firstDatabase := m_nextRegisteredDatabase (heap s r)\<rparr>;
               s = setNextRegisteredDatabase r None s;
               s = setShouldSaveAtExit r False s
           in (result, s)))"

partial_function (option) atExitCallback :: "host \<Rightarrow> process \<Rightarrow> process option" where
  "atExitCallback host s =
     (case removeFirstAtExitDatabase s of
        (None, s) \<Rightarrow> Some s
      | (Some database, s) \<Rightarrow>
          Option.bind (performAtExitSave host database s) (atExitCallback host))"

declare atExitCallback.simps [code]

text \<open>Normal termination of the process calls every function registered with
  \<^verbatim>\<open>atexit\<close>, once for each time it was registered.\<close>

fun callAtExitFunctions :: "host \<Rightarrow> nat \<Rightarrow> process \<Rightarrow> process option" where
  "callAtExitFunctions host 0 s = Some s"
| "callAtExitFunctions host (Suc n) s =
     Option.bind (atExitCallback host s) (callAtExitFunctions host n)"

definition processExit :: "host \<Rightarrow> process \<Rightarrow> process option" where
  "processExit host s = callAtExitFunctions host (atexitRegistered s) s"

subsection \<open>Sequences of registrations, destructions and the exit\<close>

datatype processOp =
    RegisterToSaveAtExit dbptr string
  | Destruct dbptr
  | ProcessExit

fun applyProcessOp :: "host \<Rightarrow> processOp \<Rightarrow> process \<Rightarrow> process option" where
  "applyProcessOp host (RegisterToSaveAtExit this filename) s =
     Some (registerToSaveAtExit this filename s)"
| "applyProcessOp host (Destruct this) s = destruct host this s"
| "applyProcessOp host ProcessExit s = processExit host s"

fun runProcess :: "host \<Rightarrow> processOp list \<Rightarrow> process \<Rightarrow> process option" where
  "runProcess host [] s = Some s"
| "runProcess host (op # ops) s = Option.bind (applyProcessOp host op s) (runProcess host ops)"

text \<open>The file names of the calls of \<^verbatim>\<open>performAtExitSave\<close> on the object \<open>d\<close>, in call
  order.\<close>

definition savesOf :: "dbptr \<Rightarrow> process \<Rightarrow> string list" where
  "savesOf d s = map snd (filter (\<lambda>(p, filename). p = d) (atExitSaves s))"

text \<open>The file name of the last \<^verbatim>\<open>registerToSaveAtExit\<close> on \<open>d\<close> in a sequence.\<close>

fun lastRegistered :: "dbptr \<Rightarrow> processOp list \<Rightarrow> string option" where
  "lastRegistered d [] = None"
| "lastRegistered d (RegisterToSaveAtExit this filename # ops) =
     (case lastRegistered d ops of
        Some later \<Rightarrow> Some later
      | None \<Rightarrow> if this = d then Some filename else None)"
| "lastRegistered d (_ # ops) = lastRegistered d ops"

text \<open>Whether a call registers the database \<open>d\<close>, and whether it ends the time in
  which \<open>d\<close> waits to be saved: the destructor of \<open>d\<close> and the exit of the process
  do.\<close>

fun registers :: "dbptr \<Rightarrow> processOp \<Rightarrow> bool" where
  "registers d (RegisterToSaveAtExit this filename) = (this = d)"
| "registers d _ = False"

fun ends :: "dbptr \<Rightarrow> processOp \<Rightarrow> bool" where
  "ends d (Destruct this) = (this = d)"
| "ends d ProcessExit = True"
| "ends d _ = False"

text \<open>The at-exit list as a list of addresses, head first, and what a call does to it:
  a registration puts a database that is not on the list at its head, a destruction
  takes the database off, the exit of the process empties the list.\<close>

fun registryStep :: "processOp \<Rightarrow> dbptr list \<Rightarrow> dbptr list" where
  "registryStep (RegisterToSaveAtExit this filename) ps =
     (if this \<in> set ps then ps else this # ps)"
| "registryStep (Destruct this) ps = remove1 this ps"
| "registryStep ProcessExit ps = []"

fun registryAfter :: "processOp list \<Rightarrow> dbptr list \<Rightarrow> dbptr list" where
  "registryAfter [] ps = ps"
| "registryAfter (op # ops) ps = registryAfter ops (registryStep op ps)"

subsection \<open>The invariant of the at-exit list\<close>

text \<open>The objects that the pointer \<open>p\<close> leads to along \<^verbatim>\<open>m_nextRegisteredDatabase\<close>, up
  to the null pointer.\<close>

fun linked :: "(dbptr \<Rightarrow> database) \<Rightarrow> dbptr option \<Rightarrow> dbptr list \<Rightarrow> bool" where
  "linked h p [] = (p = None)"
| "linked h p (q # qs) = (p = Some q \<and> linked h (m_nextRegisteredDatabase (h q)) qs)"

text \<open>\<open>ps\<close> is the at-exit list, from \<^verbatim>\<open>firstDatabase\<close> on; no object is on it twice;
  an object is on it exactly when its \<^verbatim>\<open>m_shouldSaveAtExit\<close> is set; when the list is
  not empty or \<^verbatim>\<open>didRegisterAtExit\<close> is not zero, \<^verbatim>\<open>atExitCallback\<close> has been
  registered; and the collections of every object are within the range of the loop
  counters of \<^verbatim>\<open>toJS\<close>.\<close>

definition registryInvariant :: "process \<Rightarrow> dbptr list \<Rightarrow> bool" where
  "registryInvariant s ps \<longleftrightarrow>
     linked (heap s) (firstDatabase s) ps \<and> distinct ps \<and>
     (\<forall>p. m_shouldSaveAtExit (heap s p) \<longleftrightarrow> p \<in> set ps) \<and>
     (ps \<noteq> [] \<or> didRegisterAtExit s \<noteq> 0 \<longrightarrow> 0 < atexitRegistered s) \<and>
     (\<forall>p. serializable (heap s p))"

subsection \<open>A small store, for evaluating the definitions\<close>

text \<open>Code block 1 is an optimised version of the baseline code block 0; every other
  code block is its own baseline version.\<close>

definition exampleBaseline :: "codeBlock \<Rightarrow> codeBlock" where
  "exampleBaseline cb = (if cb = 1 then 0 else cb)"

text \<open>The first database that a process constructs, for the VM at address 7.\<close>

definition exampleDatabase :: database where
  "exampleDatabase = snd (Database_ctor 0 7)"

definition exampleOps :: "storeOp list" where
  "exampleOps = [EnsureBytecodesFor 1, AddCompilation False 1 55, EnsureBytecodesFor 0,
     LogEvent 3 1 ''optimized'' ''tier2'', EnsureBytecodesFor 2, NotifyDestruction 1,
     EnsureBytecodesFor 1]"

text \<open>The example database after \<^verbatim>\<open>ensureBytecodesFor\<close> of the baseline code block 0,
  then after \<^verbatim>\<open>addCompilation\<close> of the compilation 55 for the optimised code block 1,
  then after \<^verbatim>\<open>addCompilation\<close> of the compilation 66 for the same code block.\<close>

definition exampleDatabase1 :: database where
  "exampleDatabase1 = snd (ensureBytecodesFor exampleBaseline 0 exampleDatabase)"

definition exampleDatabase2 :: database where
  "exampleDatabase2 = exampleDatabase1\<lparr>m_compilations := [55], m_compilationMap := [(1, 55)]\<rparr>"

definition exampleDatabase3 :: database where
  "exampleDatabase3 = exampleDatabase1\<lparr>m_compilations := [55, 66], m_compilationMap := [(1, 66)]\<rparr>"

text \<open>A host whose serializations are small: a unit profile is its sequential index, a
  compilation its address, an event its summary; the encoder writes the property names
  of an object one after the other.\<close>

definition exampleHost :: host where
  "exampleHost =
     \<lparr>bytecodes_toJS = (\<lambda>b. JSNumber (real (b_id b))),
      compilation_toJS = (\<lambda>c. JSNumber (real c)),
      event_toJS = (\<lambda>e. JSString (e_summary e)),
      JSONStringify = (\<lambda>v. case v of JSObject ps \<Rightarrow> concat (map fst ps) | _ \<Rightarrow> [])\<rparr>"

text \<open>The example database after \<^verbatim>\<open>logEvent\<close> for the optimised code block 1.\<close>

definition exampleDatabase4 :: database where
  "exampleDatabase4 = logEvent exampleBaseline 3 1 ''optimized'' ''tier2'' exampleDatabase2"

text \<open>A machine without files, on which every file can be opened but the one in a
  directory that does not exist.\<close>

definition exampleFileSystem :: fileSystem where
  "exampleFileSystem =
     \<lparr>canOpen = (\<lambda>name. name \<noteq> ''/nonexistent/dir/out.json''),
      files = Map.empty, openCalls = []\<rparr>"

text \<open>A process that has constructed nothing yet: every address holds an empty database,
  nothing is registered, and the machine is the example machine.\<close>

definition exampleProcess :: process where
  "exampleProcess =
     \<lparr>databaseCounter = 0, didRegisterAtExit = 0, firstDatabase = None, atexitRegistered = 0,
      heap = (\<lambda>p. exampleDatabase), disk = exampleFileSystem, atExitSaves = []\<rparr>"


section \<open>Properties of the store operations\<close>

lemma ensure_indexed:
  "map_of (m_bytecodesMap db) (bv h) = Some p \<Longrightarrow> ensureBytecodesFor bv h db = (p, db)"
  by (simp add: ensureBytecodesFor_def ensureBytecodesFor_locked_def hm_find_def)

lemma ensure_fresh:
  "map_of (m_bytecodesMap db) (bv h) = None \<Longrightarrow>
   ensureBytecodesFor bv h db =
     (length (m_bytecodes db),
      db\<lparr>m_bytecodes := m_bytecodes db @ [\<lparr>b_id = length (m_bytecodes db), b_codeBlock = bv h\<rparr>],
         m_bytecodesMap := m_bytecodesMap db @ [(bv h, length (m_bytecodes db))]\<rparr>)"
  by (simp add: ensureBytecodesFor_def ensureBytecodesFor_locked_def hm_find_def hm_add_def Let_def)

lemma logEvent_eq:
  "logEvent bv now h summary detail db =
     (snd (ensureBytecodesFor bv h db))
       \<lparr>m_events := m_events db @
          [\<lparr>e_time = now, e_bytecodes = fst (ensureBytecodesFor bv h db),
            e_compilation = map_of (m_compilationMap db) h,
            e_summary = summary, e_detail = detail\<rparr>]\<rparr>"
  by (cases "map_of (m_bytecodesMap db) (bv h)")
     (simp_all add: logEvent_def ensureBytecodesFor_def ensureBytecodesFor_locked_def
        hm_find_def hm_get_def hm_add_def Let_def)

lemma storeInvariant_ensure:
  assumes "storeInvariant db"
  shows "storeInvariant (snd (ensureBytecodesFor bv h db))"
proof (cases "map_of (m_bytecodesMap db) (bv h)")
  case None
  have "list_all (\<lambda>(k, p). p < Suc (length (m_bytecodes db))) (m_bytecodesMap db)"
    using assms by (auto simp: storeInvariant_def list_all_iff)
  with None assms show ?thesis
    by (simp add: ensure_fresh storeInvariant_def map_of_eq_None_iff)
next
  case (Some p)
  with assms show ?thesis by (simp add: ensure_indexed)
qed

lemma list_all_delete: "list_all P m \<Longrightarrow> list_all P (AList.delete k m)"
  by (auto simp: list_all_iff AList.delete_eq)

lemma storeInvariant_notify:
  assumes "storeInvariant db"
  shows "storeInvariant (notifyDestruction h db)"
  using assms
  by (simp add: notifyDestruction_def storeInvariant_def hm_remove_def Let_def
      list_all_delete distinct_delete)

lemma set_update_subset: "set (AList.update k v m) \<subseteq> insert (k, v) (set m)"
  by (induction m) auto

lemma storeInvariant_addCompilation:
  assumes "storeInvariant db" and "addCompilation ae ict h r db = Some db'"
  shows "storeInvariant db'"
proof -
  from assms(2) have db': "db' = db\<lparr>m_compilations := m_compilations db @ [r],
      m_compilationMap := AList.update h r (m_compilationMap db)\<rparr>"
    by (simp add: addCompilation_def hm_set_def Let_def split: if_splits)
  have "list_all (\<lambda>(k, c). c \<in> set (m_compilations db) \<or> c = r) (AList.update h r (m_compilationMap db))"
    using assms(1) set_update_subset [of h r "m_compilationMap db"]
    by (auto simp: storeInvariant_def list_all_iff)
  then have "list_all (\<lambda>(k, c). c = r \<or> c \<in> set (m_compilations db)) (AList.update h r (m_compilationMap db))"
    by (auto simp: list_all_iff)
  with assms(1) show ?thesis
    by (simp add: db' storeInvariant_def distinct_update)
qed

lemma storeInvariant_events:
  "storeInvariant (db\<lparr>m_events := es\<rparr>) = storeInvariant db"
  by (simp add: storeInvariant_def)

lemma storeInvariant_logEvent:
  assumes "storeInvariant db"
  shows "storeInvariant (logEvent bv now h summary detail db)"
  using storeInvariant_ensure [OF assms, of bv h]
  by (simp add: logEvent_eq storeInvariant_events)

lemma list_all_nth_append:
  "list_all (\<lambda>(k, p). p < length bs \<and> f (bs ! p) = k) m \<Longrightarrow>
   list_all (\<lambda>(k, p). p < Suc (length bs) \<and> f ((bs @ [b]) ! p) = k) m"
  by (auto simp: list_all_iff nth_append)

lemma consistent_ensure:
  assumes "bytecodesMapConsistent db"
  shows "bytecodesMapConsistent (snd (ensureBytecodesFor bv h db))"
proof (cases "map_of (m_bytecodesMap db) (bv h)")
  case None
  with assms list_all_nth_append [of "m_bytecodes db" b_codeBlock "m_bytecodesMap db"]
  show ?thesis
    by (simp add: ensure_fresh bytecodesMapConsistent_def)
next
  case (Some p)
  with assms show ?thesis by (simp add: ensure_indexed)
qed

lemma consistent_lookup:
  assumes "bytecodesMapConsistent db" and "map_of (m_bytecodesMap db) k = Some p"
  shows "p < length (m_bytecodes db) \<and> b_codeBlock (m_bytecodes db ! p) = k"
  using assms map_of_SomeD [OF assms(2)]
  by (auto simp: bytecodesMapConsistent_def list_all_iff)

lemma ensure_maps_result:
  "map_of (m_bytecodesMap (snd (ensureBytecodesFor bv h db))) (bv h)
     = Some (fst (ensureBytecodesFor bv h db))"
  by (cases "map_of (m_bytecodesMap db) (bv h)")
     (simp_all add: ensure_fresh ensure_indexed map_add_def)

lemma ensure_consistent_result:
  assumes "bytecodesMapConsistent db"
  shows "fst (ensureBytecodesFor bv h db) < length (m_bytecodes (snd (ensureBytecodesFor bv h db)))
    \<and> b_codeBlock (m_bytecodes (snd (ensureBytecodesFor bv h db)) ! fst (ensureBytecodesFor bv h db)) = bv h"
  using consistent_lookup [OF consistent_ensure [OF assms] ensure_maps_result] .

lemma delete_absent: "map_of m k = None \<Longrightarrow> AList.delete k m = m"
  by (induction m) (auto split: if_splits)

lemma notify_absent:
  "map_of (m_bytecodesMap db) h = None \<Longrightarrow> map_of (m_compilationMap db) h = None \<Longrightarrow>
   notifyDestruction h db = db"
  by (simp add: notifyDestruction_def hm_remove_def delete_absent Let_def)

lemma applyOp_indexed:
  assumes "applyOp bv ae op db = Some (out, db')" and "\<not> notifies c op"
    and "map_of (m_bytecodesMap db) c = Some p"
  shows "map_of (m_bytecodesMap db') c = Some p \<and> (\<forall>(h, q) \<in> set out. bv h = c \<longrightarrow> q = p)
    \<and> profilesFor c db' = profilesFor c db"
proof (cases op)
  case (EnsureBytecodesFor h)
  show ?thesis
  proof (cases "map_of (m_bytecodesMap db) (bv h)")
    case None
    then have "bv h \<noteq> c" using assms(3) by auto
    with None assms EnsureBytecodesFor show ?thesis
      by (auto simp: ensure_fresh profilesFor_def map_add_def)
  next
    case (Some q)
    with assms EnsureBytecodesFor show ?thesis
      by (auto simp: ensure_indexed)
  qed
next
  case (NotifyDestruction h)
  with assms show ?thesis
    by (auto simp: notifyDestruction_def hm_remove_def Let_def profilesFor_def)
next
  case (AddCompilation ict h r)
  with assms show ?thesis
    by (auto simp: addCompilation_def Let_def profilesFor_def split: if_splits option.splits)
next
  case (LogEvent now h s d)
  show ?thesis
  proof (cases "map_of (m_bytecodesMap db) (bv h)")
    case None
    then have "bv h \<noteq> c" using assms(3) by auto
    with None assms LogEvent show ?thesis
      by (auto simp: logEvent_eq ensure_fresh profilesFor_def map_add_def)
  next
    case (Some q)
    with assms LogEvent show ?thesis
      by (auto simp: logEvent_eq ensure_indexed profilesFor_def)
  qed
qed

lemma runOps_indexed:
  assumes "runOps bv ae ops db = Some (outs, db')" and "\<forall>op \<in> set ops. \<not> notifies c op"
    and "map_of (m_bytecodesMap db) c = Some p"
  shows "map_of (m_bytecodesMap db') c = Some p \<and> (\<forall>(h, q) \<in> set outs. bv h = c \<longrightarrow> q = p)
    \<and> profilesFor c db' = profilesFor c db"
  using assms
proof (induction ops arbitrary: db outs)
  case Nil
  then show ?case by simp
next
  case (Cons op ops)
  from Cons.prems(1) obtain out db1 outs1 where
    step: "applyOp bv ae op db = Some (out, db1)" and
    rest: "runOps bv ae ops db1 = Some (outs1, db')" and
    outs: "outs = out @ outs1"
    by (auto split: option.splits)
  from Cons.prems(2) have nn: "\<not> notifies c op" "\<forall>op \<in> set ops. \<not> notifies c op"
    by simp_all
  note a = applyOp_indexed [OF step nn(1) Cons.prems(3)]
  from a have idx1: "map_of (m_bytecodesMap db1) c = Some p" by simp
  note b = Cons.IH [OF rest nn(2) idx1]
  from a b outs show ?case by auto
qed

lemma applyOp_resolving:
  assumes "applyOp bv ae op db = Some (out, db')" and "resolves bv c op"
    and "map_of (m_bytecodesMap db) c = None"
  shows "map_of (m_bytecodesMap db') c = Some (length (m_bytecodes db))
    \<and> (\<forall>(h, q) \<in> set out. bv h = c \<longrightarrow> q = length (m_bytecodes db))
    \<and> profilesFor c db' = Suc (profilesFor c db)"
proof (cases op)
  case (EnsureBytecodesFor h)
  with assms show ?thesis
    by (auto simp: ensure_fresh profilesFor_def map_add_def)
next
  case (LogEvent now h s d)
  with assms show ?thesis
    by (auto simp: logEvent_eq ensure_fresh profilesFor_def map_add_def)
qed (use assms in simp_all)

lemma applyOp_not_resolving:
  assumes "applyOp bv ae op db = Some (out, db')" and "\<not> resolves bv c op"
    and "\<not> notifies c op" and "map_of (m_bytecodesMap db) c = None"
  shows "map_of (m_bytecodesMap db') c = None
    \<and> (\<forall>(h, q) \<in> set out. bv h \<noteq> c)
    \<and> profilesFor c db' = profilesFor c db"
proof (cases op)
  case (EnsureBytecodesFor h)
  with assms show ?thesis
    by (cases "map_of (m_bytecodesMap db) (bv h)")
       (auto simp: ensure_fresh ensure_indexed profilesFor_def map_add_def)
next
  case (LogEvent now h s d)
  with assms show ?thesis
    by (cases "map_of (m_bytecodesMap db) (bv h)")
       (auto simp: logEvent_eq ensure_fresh ensure_indexed profilesFor_def map_add_def)
next
  case (AddCompilation ict h r)
  with assms show ?thesis
    by (auto simp: addCompilation_def Let_def profilesFor_def split: if_splits option.splits)
next
  case (NotifyDestruction h)
  with assms show ?thesis
    by (auto simp: notifyDestruction_def hm_remove_def Let_def profilesFor_def delete_conv')
qed

lemma runOps_unindexed:
  assumes "runOps bv ae ops db = Some (outs, db')" and "\<forall>op \<in> set ops. \<not> notifies c op"
    and "map_of (m_bytecodesMap db) c = None"
  shows "(\<exists>p. \<forall>(h, q) \<in> set outs. bv h = c \<longrightarrow> q = p)
    \<and> profilesFor c db' = profilesFor c db + (if list_ex (resolves bv c) ops then 1 else 0)"
  using assms
proof (induction ops arbitrary: db outs)
  case Nil
  then show ?case by simp
next
  case (Cons op ops)
  from Cons.prems(1) obtain out db1 outs1 where
    step: "applyOp bv ae op db = Some (out, db1)" and
    rest: "runOps bv ae ops db1 = Some (outs1, db')" and
    outs: "outs = out @ outs1"
    by (auto split: option.splits)
  from Cons.prems(2) have nn: "\<not> notifies c op" "\<forall>op \<in> set ops. \<not> notifies c op"
    by simp_all
  show ?case
  proof (cases "resolves bv c op")
    case True
    note a = applyOp_resolving [OF step True Cons.prems(3)]
    from a have idx1: "map_of (m_bytecodesMap db1) c = Some (length (m_bytecodes db))" by simp
    note b = runOps_indexed [OF rest nn(2) idx1]
    have "\<forall>(h, q) \<in> set outs. bv h = c \<longrightarrow> q = length (m_bytecodes db)"
      using a b outs by auto
    then have "\<exists>p. \<forall>(h, q) \<in> set outs. bv h = c \<longrightarrow> q = p" ..
    with a b True show ?thesis by simp
  next
    case False
    note a = applyOp_not_resolving [OF step False nn(1) Cons.prems(3)]
    from a have idx1: "map_of (m_bytecodesMap db1) c = None" by simp
    note b = Cons.IH [OF rest nn(2) idx1]
    from b obtain p where p: "\<forall>(h, q) \<in> set outs1. bv h = c \<longrightarrow> q = p" by blast
    have "\<forall>(h, q) \<in> set outs. bv h = c \<longrightarrow> q = p"
      using a p outs by auto
    then have "\<exists>p. \<forall>(h, q) \<in> set outs. bv h = c \<longrightarrow> q = p" ..
    with a b False show ?thesis by simp
  qed
qed

lemma runOps_compilations:
  "runOps bv ae ops db = Some (outs, db') \<Longrightarrow>
   m_compilations db' = m_compilations db @ addedCompilations ops"
proof (induction ops arbitrary: db outs)
  case Nil
  then show ?case by simp
next
  case (Cons op ops)
  from Cons.prems obtain out db1 outs1 where
    step: "applyOp bv ae op db = Some (out, db1)" and
    rest: "runOps bv ae ops db1 = Some (outs1, db')"
    by (auto split: option.splits)
  have "m_compilations db1 @ addedCompilations ops = m_compilations db @ addedCompilations (op # ops)"
  proof (cases op)
    case (EnsureBytecodesFor h)
    with step show ?thesis
      by (cases "map_of (m_bytecodesMap db) (bv h)") (auto simp: ensure_fresh ensure_indexed)
  next
    case (NotifyDestruction h)
    with step show ?thesis by (auto simp: notifyDestruction_def Let_def)
  next
    case (AddCompilation ict h r)
    with step show ?thesis
      by (auto simp: addCompilation_def Let_def split: if_splits option.splits)
  next
    case (LogEvent now h s d)
    with step show ?thesis
      by (cases "map_of (m_bytecodesMap db) (bv h)")
         (auto simp: logEvent_eq ensure_fresh ensure_indexed)
  qed
  with Cons.IH [OF rest] show ?case by simp
qed

text \<open>In a build without assertions every sequence of store operations returns.\<close>

lemma runOps_total: "\<not> ae \<Longrightarrow> \<exists>r. runOps bv ae ops db = Some r"
proof (induction ops arbitrary: db)
  case Nil
  then show ?case by simp
next
  case (Cons op ops)
  have "\<exists>out db1. applyOp bv ae op db = Some (out, db1)"
    using Cons.prems
    by (cases op; cases "ensureBytecodesFor bv (case op of EnsureBytecodesFor h \<Rightarrow> h | _ \<Rightarrow> 0) db")
       (auto simp: addCompilation_def Let_def)
  then obtain out db1 where step: "applyOp bv ae op db = Some (out, db1)" by blast
  from Cons.IH [OF Cons.prems, of db1] obtain r where "runOps bv ae ops db1 = Some r" ..
  with step show ?case by (cases r) simp
qed

lemmas example_defs = exampleBaseline_def exampleDatabase_def exampleOps_def Database_ctor_def
lemmas op_defs = ensureBytecodesFor_def ensureBytecodesFor_locked_def notifyDestruction_def
  addCompilation_def logEvent_def hm_find_def hm_get_def hm_add_def hm_set_def hm_remove_def

subsection \<open>The invariant is kept\<close>

text \<open>Claim C9. Each of the four store operations (\<^verbatim>\<open>ensureBytecodesFor\<close>,
  \<^verbatim>\<open>notifyDestruction\<close>, \<^verbatim>\<open>addCompilation\<close> when it returns, \<^verbatim>\<open>logEvent\<close>) leads
  from a store that satisfies \<open>storeInvariant\<close> to one that satisfies it: the entries of
  the unit-profile index point into \<^verbatim>\<open>m_bytecodes\<close>, the entries of the
  latest-compilation index are elements of \<^verbatim>\<open>m_compilations\<close>, no handle is a key twice
  in an index, and the unit profile at position \<open>i\<close> has the sequential index \<open>i\<close>.\<close>

theorem store_operations_preserve_storeInvariant:
  assumes "storeInvariant db"
  shows "storeInvariant (snd (ensureBytecodesFor bv h db))
    \<and> storeInvariant (notifyDestruction h db)
    \<and> (\<forall>db'. addCompilation ae ict h r db = Some db' \<longrightarrow> storeInvariant db')
    \<and> storeInvariant (logEvent bv now h summary detail db)"
  using storeInvariant_ensure [OF assms] storeInvariant_notify [OF assms]
    storeInvariant_addCompilation [OF assms] storeInvariant_logEvent [OF assms]
  by blast

theorem store_operations_preserve_storeInvariant_witness:
  "storeInvariant exampleDatabase
   \<and> storeInvariant (snd (ensureBytecodesFor exampleBaseline 1 exampleDatabase))
   \<and> storeInvariant (notifyDestruction 1 exampleDatabase)
   \<and> addCompilation True False 1 55 exampleDatabase \<noteq> None
   \<and> storeInvariant (the (addCompilation True False 1 55 exampleDatabase))
   \<and> storeInvariant (logEvent exampleBaseline 3 1 ''optimized'' ''tier2'' exampleDatabase)"
proof -
  have inv: "storeInvariant exampleDatabase"
    by (simp add: storeInvariant_def example_defs)
  have ret: "addCompilation True False 1 55 exampleDatabase \<noteq> None"
    by (simp add: addCompilation_def)
  from store_operations_preserve_storeInvariant
    [OF inv, where bv = exampleBaseline and h = 1 and ae = True and ict = False and r = 55
       and now = 3 and summary = "''optimized''" and detail = "''tier2''"] inv ret
  show ?thesis by auto
qed

subsection \<open>One unit profile for a canonical handle\<close>

text \<open>Claim C3. \<^verbatim>\<open>ensureBytecodesFor\<close> looks the baseline version of its argument up.
  If the index has it, the call returns the indexed unit profile and changes nothing;
  otherwise it appends a unit profile whose sequential index is the length that
  \<^verbatim>\<open>m_bytecodes\<close> had, indexes it under the baseline version and returns it. Either
  way the call returns, and what it returns is then the index entry of the baseline
  version. In a sequence of store operations with no \<^verbatim>\<open>notifyDestruction\<close> of \<open>c\<close>, all
  calls of \<^verbatim>\<open>ensureBytecodesFor\<close> with handles of the canonical form \<open>c\<close> return the same
  unit profile, and the sequence creates exactly one unit profile for \<open>c\<close> when \<open>c\<close> was not
  indexed before and some call resolves it (none when \<open>c\<close> was indexed already).\<close>

theorem ensureBytecodesFor_one_profile_per_handle:
  "(case hm_find (m_bytecodesMap db) (bv h) of
      Some p \<Rightarrow> ensureBytecodesFor bv h db = (p, db)
    | None \<Rightarrow> ensureBytecodesFor bv h db =
        (length (m_bytecodes db),
         db\<lparr>m_bytecodes := m_bytecodes db @
               [\<lparr>b_id = length (m_bytecodes db), b_codeBlock = bv h\<rparr>],
            m_bytecodesMap := m_bytecodesMap db @ [(bv h, length (m_bytecodes db))]\<rparr>))
   \<and> hm_find (m_bytecodesMap (snd (ensureBytecodesFor bv h db))) (bv h)
       = Some (fst (ensureBytecodesFor bv h db))
   \<and> applyOp bv ae (EnsureBytecodesFor h) db \<noteq> None
   \<and> (\<not> list_ex (notifies c) ops \<longrightarrow>
       runOps bv ae ops db = Some (outs, db') \<longrightarrow>
         (\<exists>p. \<forall>(h', q) \<in> set outs. bv h' = c \<longrightarrow> q = p)
         \<and> profilesFor c db' = profilesFor c db +
             (if hm_find (m_bytecodesMap db) c = None \<and> list_ex (resolves bv c) ops
              then 1 else 0))"
proof -
  have one: "case hm_find (m_bytecodesMap db) (bv h) of
      Some p \<Rightarrow> ensureBytecodesFor bv h db = (p, db)
    | None \<Rightarrow> ensureBytecodesFor bv h db =
        (length (m_bytecodes db),
         db\<lparr>m_bytecodes := m_bytecodes db @
               [\<lparr>b_id = length (m_bytecodes db), b_codeBlock = bv h\<rparr>],
            m_bytecodesMap := m_bytecodesMap db @ [(bv h, length (m_bytecodes db))]\<rparr>)"
    by (simp add: hm_find_def ensure_fresh ensure_indexed split: option.split)
  have two: "hm_find (m_bytecodesMap (snd (ensureBytecodesFor bv h db))) (bv h)
       = Some (fst (ensureBytecodesFor bv h db))"
    by (simp add: hm_find_def ensure_maps_result)
  have three: "applyOp bv ae (EnsureBytecodesFor h) db \<noteq> None"
    by (simp split: prod.split)
  have four: "(\<exists>p. \<forall>(h', q) \<in> set outs. bv h' = c \<longrightarrow> q = p)
         \<and> profilesFor c db' = profilesFor c db +
             (if hm_find (m_bytecodesMap db) c = None \<and> list_ex (resolves bv c) ops
              then 1 else 0)"
    if nn': "\<not> list_ex (notifies c) ops"
      and run: "runOps bv ae ops db = Some (outs, db')"
  proof (cases "map_of (m_bytecodesMap db) c")
    case None
    from nn' have nn: "\<forall>op \<in> set ops. \<not> notifies c op"
      by (simp add: list_ex_iff)
    from runOps_unindexed [OF run nn None] None show ?thesis
      by (simp add: hm_find_def)
  next
    case (Some p)
    from nn' have nn: "\<forall>op \<in> set ops. \<not> notifies c op"
      by (simp add: list_ex_iff)
    from runOps_indexed [OF run nn Some] Some show ?thesis
      by (auto simp: hm_find_def)
  qed
  from one two three four show ?thesis by blast
qed

theorem ensureBytecodesFor_one_profile_per_handle_witness:
  "\<not> list_ex (notifies 0) exampleOps
   \<and> hm_find (m_bytecodesMap exampleDatabase) 0 = None
   \<and> list_ex (resolves exampleBaseline 0) exampleOps
   \<and> (\<exists>db'. runOps exampleBaseline True exampleOps exampleDatabase
         = Some ([(1, 0), (0, 0), (2, 1), (1, 0)], db')
        \<and> profilesFor 0 db' = profilesFor 0 exampleDatabase + 1)"
proof -
  have nn: "\<not> list_ex (notifies 0) exampleOps"
    by (simp add: exampleOps_def)
  have un: "hm_find (m_bytecodesMap exampleDatabase) 0 = None"
    by (simp add: example_defs hm_find_def)
  have res: "list_ex (resolves exampleBaseline 0) exampleOps"
    by (simp add: example_defs)
  obtain db' where run: "runOps exampleBaseline True exampleOps exampleDatabase
         = Some ([(1, 0), (0, 0), (2, 1), (1, 0)], db')"
    by (simp add: example_defs op_defs Let_def)
  from ensureBytecodesFor_one_profile_per_handle
    [where db = exampleDatabase and bv = exampleBaseline and h = 1 and ae = True
       and ops = exampleOps and outs = "[(1, 0), (0, 0), (2, 1), (1, 0)]" and db' = db' and c = 0]
    nn un res run
  show ?thesis by simp
qed

subsection \<open>Destruction of a code block\<close>

text \<open>Claim C4 as it is stated does not hold for a code block that is not a baseline
  version. \<^verbatim>\<open>notifyDestruction\<close> removes the key it is given, which is the code block
  that is being destroyed, while the unit-profile index is keyed by baseline versions. With the
  optimised code block 1 of the baseline code block 0: \<^verbatim>\<open>ensureBytecodesFor(1)\<close> creates
  unit profile 0 under the key 0; \<^verbatim>\<open>notifyDestruction(1)\<close> then changes nothing, and
  \<^verbatim>\<open>ensureBytecodesFor(1)\<close> returns the same unit profile 0 and leaves the database, with
  its single unit profile, as it was.\<close>

theorem notifyDestruction_counterexample:
  "fst (ensureBytecodesFor exampleBaseline 1 exampleDatabase) = 0
   \<and> hm_find (m_bytecodesMap (snd (ensureBytecodesFor exampleBaseline 1 exampleDatabase))) 0 = Some 0
   \<and> ensureBytecodesFor exampleBaseline 1
        (notifyDestruction 1 (snd (ensureBytecodesFor exampleBaseline 1 exampleDatabase)))
      = (0, snd (ensureBytecodesFor exampleBaseline 1 exampleDatabase))
   \<and> length (m_bytecodes (snd (ensureBytecodesFor exampleBaseline 1 exampleDatabase))) = 1"
  by (simp add: example_defs op_defs Let_def)

lemma notify_collections:
  "m_bytecodes (notifyDestruction h db) = m_bytecodes db
   \<and> m_compilations (notifyDestruction h db) = m_compilations db
   \<and> m_events (notifyDestruction h db) = m_events db"
  by (simp add: notifyDestruction_def Let_def)

lemma notify_maps:
  "map_of (m_bytecodesMap (notifyDestruction h db)) = (map_of (m_bytecodesMap db))(h := None)
   \<and> map_of (m_compilationMap (notifyDestruction h db)) = (map_of (m_compilationMap db))(h := None)"
  by (simp add: notifyDestruction_def Let_def hm_remove_def delete_conv')

lemma invariant_lookup:
  assumes "storeInvariant db" and "map_of (m_bytecodesMap db) k = Some p"
  shows "p < length (m_bytecodes db)"
  using assms map_of_SomeD [OF assms(2)]
  by (auto simp: storeInvariant_def list_all_iff)

lemma invariant_ids:
  assumes "storeInvariant db" and "p < length (m_bytecodes db)"
  shows "b_id (m_bytecodes db ! p) = p"
proof -
  from assms(1) have "map b_id (m_bytecodes db) ! p = [0..<length (m_bytecodes db)] ! p"
    by (simp add: storeInvariant_def)
  with assms(2) show ?thesis by simp
qed

text \<open>Claim C4, amended. \<^verbatim>\<open>notifyDestruction(h)\<close> leaves \<^verbatim>\<open>m_bytecodes\<close>,
  \<^verbatim>\<open>m_compilations\<close> and \<^verbatim>\<open>m_events\<close> as they are, removes the key \<open>h\<close> from both
  indices and no other key, and changes nothing when \<open>h\<close> is a key of neither index. When
  \<open>h\<close> is its own baseline version, and the store satisfies the invariant, the next
  \<^verbatim>\<open>ensureBytecodesFor(h)\<close> appends a new unit profile whose sequential index is the
  length \<^verbatim>\<open>m_bytecodes\<close> had; it differs from the unit profile that was indexed for \<open>h\<close>
  and its sequential index is larger.\<close>

theorem notifyDestruction_then_new_profile:
  "m_bytecodes (notifyDestruction h db) = m_bytecodes db
   \<and> m_compilations (notifyDestruction h db) = m_compilations db
   \<and> m_events (notifyDestruction h db) = m_events db
   \<and> hm_find (m_bytecodesMap (notifyDestruction h db)) h = None
   \<and> hm_get (m_compilationMap (notifyDestruction h db)) h = None
   \<and> (k \<noteq> h \<longrightarrow>
        hm_find (m_bytecodesMap (notifyDestruction h db)) k = hm_find (m_bytecodesMap db) k
        \<and> hm_get (m_compilationMap (notifyDestruction h db)) k = hm_get (m_compilationMap db) k)
   \<and> (hm_find (m_bytecodesMap db) h = None \<longrightarrow> hm_get (m_compilationMap db) h = None \<longrightarrow>
        notifyDestruction h db = db)
   \<and> (bv h = h \<longrightarrow> storeInvariant db \<longrightarrow>
        fst (ensureBytecodesFor bv h (notifyDestruction h db)) = length (m_bytecodes db)
        \<and> m_bytecodes (snd (ensureBytecodesFor bv h (notifyDestruction h db)))
            = m_bytecodes db @ [\<lparr>b_id = length (m_bytecodes db), b_codeBlock = h\<rparr>]
        \<and> hm_find (m_bytecodesMap (snd (ensureBytecodesFor bv h (notifyDestruction h db)))) h
            = Some (length (m_bytecodes db))
        \<and> b_id (m_bytecodes (snd (ensureBytecodesFor bv h (notifyDestruction h db)))
              ! fst (ensureBytecodesFor bv h (notifyDestruction h db))) = length (m_bytecodes db)
        \<and> (\<forall>p. hm_find (m_bytecodesMap db) h = Some p \<longrightarrow>
              p \<noteq> fst (ensureBytecodesFor bv h (notifyDestruction h db))
              \<and> b_id (m_bytecodes (snd (ensureBytecodesFor bv h (notifyDestruction h db))) ! p)
                  < b_id (m_bytecodes (snd (ensureBytecodesFor bv h (notifyDestruction h db)))
                      ! fst (ensureBytecodesFor bv h (notifyDestruction h db)))))"
proof -
  note c = notify_collections [of h db]
  note m = notify_maps [of h db]
  have absent: "notifyDestruction h db = db"
    if "hm_find (m_bytecodesMap db) h = None" and "hm_get (m_compilationMap db) h = None"
    using that by (simp add: hm_find_def hm_get_def notify_absent)
  have fresh: "map_of (m_bytecodesMap (notifyDestruction h db)) h = None"
    using m by simp
  have new: "fst (ensureBytecodesFor bv h (notifyDestruction h db)) = length (m_bytecodes db)
        \<and> m_bytecodes (snd (ensureBytecodesFor bv h (notifyDestruction h db)))
            = m_bytecodes db @ [\<lparr>b_id = length (m_bytecodes db), b_codeBlock = h\<rparr>]
        \<and> hm_find (m_bytecodesMap (snd (ensureBytecodesFor bv h (notifyDestruction h db)))) h
            = Some (length (m_bytecodes db))"
    if "bv h = h"
    using that fresh c by (simp add: ensure_fresh hm_find_def map_add_def)
  have old: "p < length (m_bytecodes db) \<and> b_id (m_bytecodes db ! p) < length (m_bytecodes db)"
    if "storeInvariant db" and "hm_find (m_bytecodesMap db) h = Some p" for p
    using invariant_lookup [OF that(1), of h p] invariant_ids [OF that(1), of p] that(2)
    by (simp add: hm_find_def)
  have cmp: "p \<noteq> fst (ensureBytecodesFor bv h (notifyDestruction h db))
      \<and> b_id (m_bytecodes (snd (ensureBytecodesFor bv h (notifyDestruction h db))) ! p)
          < b_id (m_bytecodes (snd (ensureBytecodesFor bv h (notifyDestruction h db)))
              ! fst (ensureBytecodesFor bv h (notifyDestruction h db)))"
    if "bv h = h" and "storeInvariant db" and "hm_find (m_bytecodesMap db) h = Some p" for p
    using new [OF that(1)] old [OF that(2,3)] by (simp add: nth_append)
  have newid: "b_id (m_bytecodes (snd (ensureBytecodesFor bv h (notifyDestruction h db)))
              ! fst (ensureBytecodesFor bv h (notifyDestruction h db))) = length (m_bytecodes db)"
    if "bv h = h"
    using new [OF that] by simp
  from c m absent new newid cmp show ?thesis
    by (simp add: hm_find_def hm_get_def)
qed

theorem notifyDestruction_then_new_profile_witness:
  "(2::nat) \<noteq> 0
   \<and> hm_find (m_bytecodesMap exampleDatabase) 0 = None
   \<and> hm_get (m_compilationMap exampleDatabase) 0 = None
   \<and> notifyDestruction 0 exampleDatabase = exampleDatabase
   \<and> exampleBaseline 0 = 0
   \<and> storeInvariant exampleDatabase1
   \<and> hm_find (m_bytecodesMap exampleDatabase1) 0 = Some 0
   \<and> hm_find (m_bytecodesMap (notifyDestruction 0 exampleDatabase1)) 2
       = hm_find (m_bytecodesMap exampleDatabase1) 2
   \<and> fst (ensureBytecodesFor exampleBaseline 0 (notifyDestruction 0 exampleDatabase1))
       = length (m_bytecodes exampleDatabase1)
   \<and> 0 \<noteq> fst (ensureBytecodesFor exampleBaseline 0 (notifyDestruction 0 exampleDatabase1))
   \<and> b_id (m_bytecodes (snd (ensureBytecodesFor exampleBaseline 0
          (notifyDestruction 0 exampleDatabase1))) ! 0)
      < b_id (m_bytecodes (snd (ensureBytecodesFor exampleBaseline 0
          (notifyDestruction 0 exampleDatabase1)))
          ! fst (ensureBytecodesFor exampleBaseline 0 (notifyDestruction 0 exampleDatabase1)))"
proof -
  have a: "hm_find (m_bytecodesMap exampleDatabase) 0 = None"
    "hm_get (m_compilationMap exampleDatabase) 0 = None"
    by (simp_all add: example_defs hm_find_def hm_get_def)
  have b: "exampleBaseline 0 = 0" by (simp add: exampleBaseline_def)
  have n: "(2::nat) \<noteq> 0" by simp
  have inv: "storeInvariant exampleDatabase1"
    by (simp add: exampleDatabase1_def storeInvariant_def example_defs op_defs Let_def)
  have idx: "hm_find (m_bytecodesMap exampleDatabase1) 0 = Some 0"
    by (simp add: exampleDatabase1_def example_defs op_defs Let_def)
  note t0 = notifyDestruction_then_new_profile
    [where h = 0 and db = exampleDatabase and k = 2 and bv = exampleBaseline]
  note t1 = notifyDestruction_then_new_profile
    [where h = 0 and db = exampleDatabase1 and k = 2 and bv = exampleBaseline]
  from t0 a have c0: "notifyDestruction 0 exampleDatabase = exampleDatabase" by blast
  from t1 n have c1: "hm_find (m_bytecodesMap (notifyDestruction 0 exampleDatabase1)) 2
       = hm_find (m_bytecodesMap exampleDatabase1) 2" by blast
  from t1 b inv have c2:
    "fst (ensureBytecodesFor exampleBaseline 0 (notifyDestruction 0 exampleDatabase1))
       = length (m_bytecodes exampleDatabase1)" by blast
  from t1 b inv idx have c3:
    "0 \<noteq> fst (ensureBytecodesFor exampleBaseline 0 (notifyDestruction 0 exampleDatabase1))
     \<and> b_id (m_bytecodes (snd (ensureBytecodesFor exampleBaseline 0
          (notifyDestruction 0 exampleDatabase1))) ! 0)
      < b_id (m_bytecodes (snd (ensureBytecodesFor exampleBaseline 0
          (notifyDestruction 0 exampleDatabase1)))
          ! fst (ensureBytecodesFor exampleBaseline 0 (notifyDestruction 0 exampleDatabase1)))"
    by blast
  from a b n inv idx c0 c1 c2 c3 show ?thesis by blast
qed

lemma addCompilation_returns:
  "\<not> (ae \<and> ict) \<Longrightarrow>
   addCompilation ae ict h r db =
     Some (db\<lparr>m_compilations := m_compilations db @ [r],
              m_compilationMap := AList.update h r (m_compilationMap db)\<rparr>)"
  by (simp add: addCompilation_def hm_set_def Let_def)

lemma addCompilation_SomeD:
  "addCompilation ae ict h r db = Some db' \<Longrightarrow>
   db' = db\<lparr>m_compilations := m_compilations db @ [r],
              m_compilationMap := AList.update h r (m_compilationMap db)\<rparr>"
  by (simp add: addCompilation_def hm_set_def Let_def split: if_splits)

subsection \<open>Compilations\<close>

text \<open>Claim C5. When the assertion does not stop it, \<^verbatim>\<open>addCompilation(h, r)\<close> returns,
  appends \<open>r\<close> to \<^verbatim>\<open>m_compilations\<close>, makes \<open>r\<close> the entry of \<open>h\<close> in the
  latest-compilation index and leaves the other entries and members alone; a second call
  for the same \<open>h\<close> replaces the entry and both compilations stay in \<^verbatim>\<open>m_compilations\<close>,
  in call order. After any sequence of store operations \<^verbatim>\<open>m_compilations\<close> is what it
  was followed by the compilations of the \<^verbatim>\<open>addCompilation\<close> calls in call order.\<close>

theorem addCompilation_appends_and_indexes:
  "(\<not> (ae \<and> ict) \<longrightarrow>
      (\<exists>db1. addCompilation ae ict h r db = Some db1
         \<and> m_compilations db1 = m_compilations db @ [r]
         \<and> hm_get (m_compilationMap db1) h = Some r
         \<and> (\<forall>k. k \<noteq> h \<longrightarrow> hm_get (m_compilationMap db1) k = hm_get (m_compilationMap db) k)
         \<and> m_bytecodes db1 = m_bytecodes db \<and> m_bytecodesMap db1 = m_bytecodesMap db
         \<and> m_events db1 = m_events db
         \<and> (\<forall>db2. addCompilation ae ict' h r' db1 = Some db2 \<longrightarrow>
               m_compilations db2 = m_compilations db @ [r, r']
               \<and> hm_get (m_compilationMap db2) h = Some r')))
   \<and> (runOps bv ae ops db = Some (outs, db') \<longrightarrow>
        m_compilations db' = m_compilations db @ addedCompilations ops)"
proof -
  have one: "\<exists>db1. addCompilation ae ict h r db = Some db1
         \<and> m_compilations db1 = m_compilations db @ [r]
         \<and> hm_get (m_compilationMap db1) h = Some r
         \<and> (\<forall>k. k \<noteq> h \<longrightarrow> hm_get (m_compilationMap db1) k = hm_get (m_compilationMap db) k)
         \<and> m_bytecodes db1 = m_bytecodes db \<and> m_bytecodesMap db1 = m_bytecodesMap db
         \<and> m_events db1 = m_events db
         \<and> (\<forall>db2. addCompilation ae ict' h r' db1 = Some db2 \<longrightarrow>
               m_compilations db2 = m_compilations db @ [r, r']
               \<and> hm_get (m_compilationMap db2) h = Some r')"
    if ok: "\<not> (ae \<and> ict)"
  proof -
    let ?db1 = "db\<lparr>m_compilations := m_compilations db @ [r],
              m_compilationMap := AList.update h r (m_compilationMap db)\<rparr>"
    have ret: "addCompilation ae ict h r db = Some ?db1"
      by (rule addCompilation_returns [OF ok])
    have second: "m_compilations db2 = m_compilations db @ [r, r']
               \<and> hm_get (m_compilationMap db2) h = Some r'"
      if "addCompilation ae ict' h r' ?db1 = Some db2" for db2
      using addCompilation_SomeD [OF that] by (simp add: hm_get_def update_conv')
    have first: "m_compilations ?db1 = m_compilations db @ [r]
         \<and> hm_get (m_compilationMap ?db1) h = Some r
         \<and> (\<forall>k. k \<noteq> h \<longrightarrow> hm_get (m_compilationMap ?db1) k = hm_get (m_compilationMap db) k)
         \<and> m_bytecodes ?db1 = m_bytecodes db \<and> m_bytecodesMap ?db1 = m_bytecodesMap db
         \<and> m_events ?db1 = m_events db"
      by (simp add: hm_get_def update_conv')
    from ret first second show ?thesis by blast
  qed
  from one runOps_compilations [of bv ae ops db outs db'] show ?thesis by blast
qed

theorem addCompilation_appends_and_indexes_witness:
  "\<not> (True \<and> False)
   \<and> addCompilation True False 1 55 exampleDatabase1 = Some exampleDatabase2
   \<and> addCompilation True False 1 66 exampleDatabase2 = Some exampleDatabase3
   \<and> m_compilations exampleDatabase3 = m_compilations exampleDatabase1 @ [55, 66]
   \<and> hm_get (m_compilationMap exampleDatabase3) 1 = Some 66
   \<and> (\<exists>outs db'. runOps exampleBaseline True exampleOps exampleDatabase = Some (outs, db')
        \<and> m_compilations db' = m_compilations exampleDatabase @ addedCompilations exampleOps)"
proof -
  have ok: "\<not> (True \<and> False)" by simp
  have a1: "addCompilation True False 1 55 exampleDatabase1 = Some exampleDatabase2"
    by (simp add: exampleDatabase2_def exampleDatabase1_def example_defs op_defs Let_def)
  have a2: "addCompilation True False 1 66 exampleDatabase2 = Some exampleDatabase3"
    by (simp add: exampleDatabase3_def exampleDatabase2_def exampleDatabase1_def example_defs
        op_defs Let_def)
  obtain outs db' where
    run: "runOps exampleBaseline True exampleOps exampleDatabase = Some (outs, db')"
    by (simp add: example_defs op_defs Let_def)
  note t = addCompilation_appends_and_indexes
    [where ae = True and ict = False and h = 1 and r = 55 and db = exampleDatabase1
       and ict' = False and r' = 66]
  from t [of exampleBaseline "[]" "[]" exampleDatabase1] ok a1 a2
  have c1: "m_compilations exampleDatabase3 = m_compilations exampleDatabase1 @ [55, 66]
      \<and> hm_get (m_compilationMap exampleDatabase3) 1 = Some 66"
    by auto
  from addCompilation_appends_and_indexes
    [where bv = exampleBaseline and ae = True and ops = exampleOps and db = exampleDatabase
       and outs = outs and db' = db'] run
  have c2: "m_compilations db' = m_compilations exampleDatabase @ addedCompilations exampleOps"
    by blast
  from ok a1 a2 c1 c2 run show ?thesis by blast
qed

lemma ensure_events: "m_events (snd (ensureBytecodesFor bv h db)) = m_events db"
  by (cases "map_of (m_bytecodesMap db) (bv h)") (simp_all add: ensure_fresh ensure_indexed)

subsection \<open>Events\<close>

text \<open>Claim C6. \<^verbatim>\<open>logEvent(h, summary, detail)\<close> is \<^verbatim>\<open>ensureBytecodesFor(h)\<close> followed by
  the append of one event to \<^verbatim>\<open>m_events\<close>: the event has the time stamp read, the unit
  profile that \<^verbatim>\<open>ensureBytecodesFor\<close> returned, the entry of \<open>h\<close> in the
  latest-compilation index (none when there is no entry), the summary and the detail.
  Nothing else changes. The unit profile of the event is the index entry of the baseline
  version of \<open>h\<close>, and in a store whose index is consistent it was made for that baseline
  version. The function is total: the call always returns.\<close>

theorem logEvent_appends_one_event:
  "logEvent bv now h summary detail db =
     (snd (ensureBytecodesFor bv h db))
       \<lparr>m_events := m_events db @
          [\<lparr>e_time = now, e_bytecodes = fst (ensureBytecodesFor bv h db),
            e_compilation = hm_get (m_compilationMap db) h,
            e_summary = summary, e_detail = detail\<rparr>]\<rparr>
   \<and> m_events (snd (ensureBytecodesFor bv h db)) = m_events db
   \<and> hm_find (m_bytecodesMap (logEvent bv now h summary detail db)) (bv h)
       = Some (e_bytecodes (last (m_events (logEvent bv now h summary detail db))))
   \<and> (bytecodesMapConsistent db \<longrightarrow>
        bytecodesMapConsistent (logEvent bv now h summary detail db)
        \<and> e_bytecodes (last (m_events (logEvent bv now h summary detail db)))
            < length (m_bytecodes (logEvent bv now h summary detail db))
        \<and> b_codeBlock (m_bytecodes (logEvent bv now h summary detail db)
            ! e_bytecodes (last (m_events (logEvent bv now h summary detail db)))) = bv h)"
proof -
  have cons: "bytecodesMapConsistent (logEvent bv now h summary detail db)"
    if "bytecodesMapConsistent db"
    using consistent_ensure [OF that, of bv h]
    by (simp add: logEvent_eq bytecodesMapConsistent_def)
  from cons ensure_consistent_result [of db bv h] ensure_maps_result [of bv h db]
  show ?thesis
    by (simp add: logEvent_eq hm_get_def hm_find_def ensure_events)
qed

theorem logEvent_appends_one_event_witness:
  "bytecodesMapConsistent exampleDatabase2
   \<and> m_events (logEvent exampleBaseline 3 1 ''optimized'' ''tier2'' exampleDatabase2)
       = m_events exampleDatabase2 @
          [\<lparr>e_time = 3, e_bytecodes = 0, e_compilation = Some 55,
            e_summary = ''optimized'', e_detail = ''tier2''\<rparr>]
   \<and> b_codeBlock (m_bytecodes (logEvent exampleBaseline 3 1 ''optimized'' ''tier2'' exampleDatabase2)
        ! e_bytecodes (last (m_events
            (logEvent exampleBaseline 3 1 ''optimized'' ''tier2'' exampleDatabase2))))
       = exampleBaseline 1"
proof -
  have c: "bytecodesMapConsistent exampleDatabase2"
    by (simp add: bytecodesMapConsistent_def exampleDatabase2_def exampleDatabase1_def
        example_defs op_defs Let_def)
  have e: "fst (ensureBytecodesFor exampleBaseline 1 exampleDatabase2) = 0"
    "hm_get (m_compilationMap exampleDatabase2) 1 = Some 55"
    by (simp_all add: exampleDatabase2_def exampleDatabase1_def example_defs op_defs Let_def)
  note t = logEvent_appends_one_event
    [where bv = exampleBaseline and now = 3 and h = 1 and summary = "''optimized''"
       and detail = "''tier2''" and db = exampleDatabase2]
  from t have "m_events (logEvent exampleBaseline 3 1 ''optimized'' ''tier2'' exampleDatabase2)
       = m_events exampleDatabase2 @
          [\<lparr>e_time = 3, e_bytecodes = fst (ensureBytecodesFor exampleBaseline 1 exampleDatabase2),
            e_compilation = hm_get (m_compilationMap exampleDatabase2) 1,
            e_summary = ''optimized'', e_detail = ''tier2''\<rparr>]"
    by simp
  with e have c1: "m_events (logEvent exampleBaseline 3 1 ''optimized'' ''tier2'' exampleDatabase2)
       = m_events exampleDatabase2 @
          [\<lparr>e_time = 3, e_bytecodes = 0, e_compilation = Some 55,
            e_summary = ''optimized'', e_detail = ''tier2''\<rparr>]"
    by simp
  from t c have c2:
    "b_codeBlock (m_bytecodes (logEvent exampleBaseline 3 1 ''optimized'' ''tier2'' exampleDatabase2)
        ! e_bytecodes (last (m_events
            (logEvent exampleBaseline 3 1 ''optimized'' ''tier2'' exampleDatabase2))))
       = exampleBaseline 1"
    by blast
  from c c1 c2 show ?thesis by blast
qed

subsection \<open>Raw and canonical handles\<close>

text \<open>Claim C10. For a code block \<open>h\<close> that is not its own baseline version,
  \<^verbatim>\<open>notifyDestruction(h)\<close> leaves the unit-profile index entry of the baseline version in
  place. A compilation that \<^verbatim>\<open>addCompilation\<close> records for \<open>h\<close> is indexed under \<open>h\<close>
  itself, and a later \<^verbatim>\<open>logEvent(h')\<close> puts it into its event exactly when \<open>h' = h\<close>; for
  any other \<open>h'\<close>, also one with the same baseline version, the event has what the index
  held for \<open>h'\<close> before.\<close>

theorem only_ensureBytecodesFor_canonicalizes:
  "(bv h \<noteq> h \<longrightarrow>
      hm_find (m_bytecodesMap (notifyDestruction h db)) (bv h)
        = hm_find (m_bytecodesMap db) (bv h))
   \<and> (addCompilation ae ict h r db = Some db1 \<longrightarrow>
        hm_get (m_compilationMap db1) h = Some r
        \<and> e_compilation (last (m_events (logEvent bv now h' summary detail db1)))
            = (if h' = h then Some r else hm_get (m_compilationMap db) h'))"
proof -
  have one: "hm_find (m_bytecodesMap (notifyDestruction h db)) (bv h)
        = hm_find (m_bytecodesMap db) (bv h)" if "bv h \<noteq> h"
    using that notify_maps [of h db] by (simp add: hm_find_def)
  have two: "hm_get (m_compilationMap db1) h = Some r
        \<and> e_compilation (last (m_events (logEvent bv now h' summary detail db1)))
            = (if h' = h then Some r else hm_get (m_compilationMap db) h')"
    if "addCompilation ae ict h r db = Some db1"
    using addCompilation_SomeD [OF that]
    by (simp add: logEvent_eq hm_get_def update_conv')
  from one two show ?thesis by blast
qed

theorem only_ensureBytecodesFor_canonicalizes_witness:
  "exampleBaseline 1 \<noteq> 1
   \<and> hm_find (m_bytecodesMap exampleDatabase1) (exampleBaseline 1) = Some 0
   \<and> hm_find (m_bytecodesMap (notifyDestruction 1 exampleDatabase1)) (exampleBaseline 1) = Some 0
   \<and> addCompilation True False 1 55 exampleDatabase1 = Some exampleDatabase2
   \<and> e_compilation (last (m_events (logEvent exampleBaseline 3 1 ''a'' ''b'' exampleDatabase2)))
       = Some 55
   \<and> e_compilation (last (m_events (logEvent exampleBaseline 3 0 ''a'' ''b'' exampleDatabase2)))
       = None
   \<and> fst (ensureBytecodesFor exampleBaseline 1 exampleDatabase2)
       = fst (ensureBytecodesFor exampleBaseline 0 exampleDatabase2)"
proof -
  have n: "exampleBaseline 1 \<noteq> 1" by (simp add: exampleBaseline_def)
  have i: "hm_find (m_bytecodesMap exampleDatabase1) (exampleBaseline 1) = Some 0"
    by (simp add: exampleDatabase1_def example_defs op_defs Let_def)
  have a1: "addCompilation True False 1 55 exampleDatabase1 = Some exampleDatabase2"
    by (simp add: exampleDatabase2_def exampleDatabase1_def example_defs op_defs Let_def)
  have g: "hm_get (m_compilationMap exampleDatabase1) 0 = None"
    by (simp add: exampleDatabase1_def example_defs op_defs Let_def)
  have s: "fst (ensureBytecodesFor exampleBaseline 1 exampleDatabase2)
       = fst (ensureBytecodesFor exampleBaseline 0 exampleDatabase2)"
    by (simp add: exampleDatabase2_def exampleDatabase1_def example_defs op_defs Let_def)
  note t = only_ensureBytecodesFor_canonicalizes
    [where bv = exampleBaseline and h = 1 and db = exampleDatabase1 and ae = True
       and ict = False and r = 55 and ?db1.0 = exampleDatabase2 and now = 3
       and summary = "''a''" and detail = "''b''"]
  from t [where h' = 1] n i
  have c1: "hm_find (m_bytecodesMap (notifyDestruction 1 exampleDatabase1)) (exampleBaseline 1)
      = Some 0" by simp
  from t [where h' = 1] a1
  have c2: "e_compilation (last (m_events (logEvent exampleBaseline 3 1 ''a'' ''b'' exampleDatabase2)))
       = Some 55" by simp
  from t [where h' = 0] a1 g
  have c3: "e_compilation (last (m_events (logEvent exampleBaseline 3 0 ''a'' ''b'' exampleDatabase2)))
       = None" by simp
  from n i a1 s c1 c2 c3 show ?thesis by blast
qed

subsection \<open>Stores that the operations can reach\<close>

text \<open>The constructor gives a store that satisfies both invariants, and the four store
  operations keep the consistency of the unit-profile index as they keep the store
  invariant; so both hold of every store that the operations can reach.\<close>

lemma constructor_invariants:
  "storeInvariant (snd (Database_ctor counter vm))
   \<and> bytecodesMapConsistent (snd (Database_ctor counter vm))"
  by (simp add: Database_ctor_def storeInvariant_def bytecodesMapConsistent_def)

lemma applyOp_consistent:
  assumes "bytecodesMapConsistent db" and "applyOp bv ae op db = Some (out, db')"
  shows "bytecodesMapConsistent db'"
proof (cases op)
  case (EnsureBytecodesFor h)
  with assms consistent_ensure [OF assms(1), of bv h] show ?thesis
    by (auto split: prod.splits)
next
  case (NotifyDestruction h)
  with assms show ?thesis
    by (auto simp: notifyDestruction_def hm_remove_def Let_def bytecodesMapConsistent_def
        list_all_delete)
next
  case (AddCompilation ict h r)
  with assms addCompilation_SomeD [of ae ict h r db db'] show ?thesis
    by (auto simp: bytecodesMapConsistent_def split: option.splits)
next
  case (LogEvent now h summary detail)
  with assms consistent_ensure [OF assms(1), of bv h] show ?thesis
    by (auto simp: logEvent_eq bytecodesMapConsistent_def)
qed

lemma applyOp_storeInvariant:
  assumes "storeInvariant db" and "applyOp bv ae op db = Some (out, db')"
  shows "storeInvariant db'"
proof (cases op)
  case (EnsureBytecodesFor h)
  with assms storeInvariant_ensure [OF assms(1), of bv h] show ?thesis
    by (auto split: prod.splits)
next
  case (NotifyDestruction h)
  with assms storeInvariant_notify [OF assms(1), of h] show ?thesis by auto
next
  case (AddCompilation ict h r)
  with assms storeInvariant_addCompilation [OF assms(1), of ae ict h r db'] show ?thesis
    by (auto split: option.splits)
next
  case (LogEvent now h summary detail)
  with assms storeInvariant_logEvent [OF assms(1), of bv now h summary detail] show ?thesis
    by auto
qed

lemma runOps_invariants:
  assumes "runOps bv ae ops db = Some (outs, db')"
    and "storeInvariant db" and "bytecodesMapConsistent db"
  shows "storeInvariant db' \<and> bytecodesMapConsistent db'"
  using assms
proof (induction ops arbitrary: db outs)
  case Nil
  then show ?case by simp
next
  case (Cons op ops)
  from Cons.prems(1) obtain out db1 outs1 where
    step: "applyOp bv ae op db = Some (out, db1)" and
    rest: "runOps bv ae ops db1 = Some (outs1, db')"
    by (auto split: option.splits)
  from applyOp_storeInvariant [OF Cons.prems(2) step] applyOp_consistent [OF Cons.prems(3) step]
    Cons.IH [OF rest]
  show ?case by blast
qed

text \<open>The store operations do not touch the three members that the at-exit functions
  use.\<close>

lemma applyOp_registration_members:
  assumes "applyOp bv ae op db = Some (out, db')"
  shows "m_shouldSaveAtExit db' = m_shouldSaveAtExit db
    \<and> m_atExitSaveFilename db' = m_atExitSaveFilename db
    \<and> m_nextRegisteredDatabase db' = m_nextRegisteredDatabase db"
proof (cases op)
  case (EnsureBytecodesFor h)
  with assms show ?thesis
    by (cases "map_of (m_bytecodesMap db) (bv h)") (auto simp: ensure_fresh ensure_indexed)
next
  case (NotifyDestruction h)
  with assms show ?thesis by (auto simp: notifyDestruction_def Let_def)
next
  case (AddCompilation ict h r)
  with assms addCompilation_SomeD [of ae ict h r db db'] show ?thesis
    by (auto split: option.splits)
next
  case (LogEvent now h summary detail)
  with assms show ?thesis
    by (cases "map_of (m_bytecodesMap db) (bv h)")
       (auto simp: logEvent_eq ensure_fresh ensure_indexed)
qed

section \<open>Properties of the serialization and of saving\<close>

lemma putDirectIndex_at_end: "putDirectIndex array (length array) v = array @ [v]"
  by (simp add: putDirectIndex_def)

lemma unat_plus_one:
  fixes i :: "32 word"
  assumes "unat i < n" and "n < 2 ^ 32"
  shows "unat (i + 1) = Suc (unat i)"
proof -
  have "unat i + unat (1 :: 32 word) < 2 ^ LENGTH(32)"
    using assms by simp
  then have "unat (i + 1) = unat i + unat (1 :: 32 word)"
    by (simp only: unat_add_lem)
  then show ?thesis by simp
qed

lemma toJS_loop_from:
  assumes "length v < 2 ^ 32" and "unat i \<le> length v" and "length array = unat i"
  shows "toJS_loop f v i array = Some (array @ map f (drop (unat i) v))"
  using assms
proof (induction "length v - unat i" arbitrary: i array)
  case 0
  then have "unat i = length v" by simp
  then show ?case
    by (subst toJS_loop.simps) simp
next
  case (Suc k)
  then have lt: "unat i < length v" by simp
  have next_i: "unat (i + 1) = Suc (unat i)"
    using lt Suc.prems(1) by (rule unat_plus_one)
  have step: "putDirectIndex array (unat i) (f (v ! unat i)) = array @ [f (v ! unat i)]"
    using Suc.prems(3) putDirectIndex_at_end [of array] by simp
  have "toJS_loop f v (i + 1) (array @ [f (v ! unat i)])
      = Some ((array @ [f (v ! unat i)]) @ map f (drop (unat (i + 1)) v))"
  proof (rule Suc.hyps(1))
    show "k = length v - unat (i + 1)" using Suc.hyps(2) next_i by simp
    show "length v < 2 ^ 32" by (rule Suc.prems(1))
    show "unat (i + 1) \<le> length v" using lt next_i by simp
    show "length (array @ [f (v ! unat i)]) = unat (i + 1)"
      using Suc.prems(3) next_i by simp
  qed
  moreover have "drop (unat i) v = v ! unat i # drop (Suc (unat i)) v"
    using lt by (simp add: Cons_nth_drop_Suc)
  ultimately show ?case
    using lt step next_i by (subst toJS_loop.simps) simp
qed

lemma toJS_loop_all:
  "length v < 2 ^ 32 \<Longrightarrow> toJS_loop f v 0 [] = Some (map f v)"
  using toJS_loop_from [of v 0 "[]" f] by simp

lemma toJS_serializable:
  assumes "serializable db"
  shows "toJS host db = Some (JSObject
     [(''bytecodes'', JSArray (map (bytecodes_toJS host) (m_bytecodes db))),
      (''compilations'', JSArray (map (compilation_toJS host) (m_compilations db))),
      (''events'', JSArray (map (event_toJS host) (m_events db)))])"
  using assms
  by (simp add: toJS_def serializable_def toJS_loop_all putDirect_def)

lemma toJSON_serializable:
  assumes "serializable db"
  shows "toJSON host db = Some (JSONStringify host (JSObject
     [(''bytecodes'', JSArray (map (bytecodes_toJS host) (m_bytecodes db))),
      (''compilations'', JSArray (map (compilation_toJS host) (m_compilations db))),
      (''events'', JSArray (map (event_toJS host) (m_events db)))]))"
  by (simp add: toJSON_def toJS_serializable [OF assms])

subsection \<open>Serialization\<close>

text \<open>Claim C7. For a database whose collections have fewer than \<open>2 ^ 32\<close> entries (the
  range of the loop counters) \<^verbatim>\<open>toJS\<close> returns an object with exactly three properties,
  added in the order \<^verbatim>\<open>bytecodes\<close>, \<^verbatim>\<open>compilations\<close>, \<^verbatim>\<open>events\<close>; each is an array that
  holds, position by position, the serializations of the elements of \<^verbatim>\<open>m_bytecodes\<close>,
  \<^verbatim>\<open>m_compilations\<close> and \<^verbatim>\<open>m_events\<close>, which the store operations only ever append to.
  \<^verbatim>\<open>toJSON\<close> is \<^verbatim>\<open>JSONStringify\<close> of that object.\<close>

theorem toJS_three_arrays_in_order:
  "toJSON host db = map_option (JSONStringify host) (toJS host db)
   \<and> (serializable db \<longrightarrow>
        toJS host db = Some (JSObject
          [(''bytecodes'', JSArray (map (bytecodes_toJS host) (m_bytecodes db))),
           (''compilations'', JSArray (map (compilation_toJS host) (m_compilations db))),
           (''events'', JSArray (map (event_toJS host) (m_events db)))]))"
proof -
  have "toJSON host db = map_option (JSONStringify host) (toJS host db)"
    by (simp add: toJSON_def split: option.split)
  with toJS_serializable [of db host] show ?thesis by blast
qed

theorem toJS_three_arrays_in_order_witness:
  "serializable exampleDatabase4
   \<and> toJS exampleHost exampleDatabase4 = Some (JSObject
        [(''bytecodes'', JSArray [JSNumber 0]),
         (''compilations'', JSArray [JSNumber 55]),
         (''events'', JSArray [JSString ''optimized''])])
   \<and> toJSON exampleHost exampleDatabase4 = Some ''bytecodescompilationsevents''"
proof -
  have db: "m_bytecodes exampleDatabase4 = [\<lparr>b_id = 0, b_codeBlock = 0\<rparr>]"
    "m_compilations exampleDatabase4 = [55]"
    "m_events exampleDatabase4 = [\<lparr>e_time = 3, e_bytecodes = 0, e_compilation = Some 55,
        e_summary = ''optimized'', e_detail = ''tier2''\<rparr>]"
    by (simp_all add: exampleDatabase4_def exampleDatabase2_def exampleDatabase1_def
        example_defs op_defs Let_def)
  have ser: "serializable exampleDatabase4"
    by (simp add: serializable_def db)
  note t = toJS_three_arrays_in_order [of exampleHost exampleDatabase4]
  from t ser have js: "toJS exampleHost exampleDatabase4 = Some (JSObject
        [(''bytecodes'', JSArray [JSNumber 0]),
         (''compilations'', JSArray [JSNumber 55]),
         (''events'', JSArray [JSString ''optimized''])])"
    by (simp add: db exampleHost_def)
  from t js have "toJSON exampleHost exampleDatabase4 = Some ''bytecodescompilationsevents''"
    by (simp add: exampleHost_def)
  with ser js show ?thesis by blast
qed

lemma save_cannot_open:
  "\<not> canOpen fs filename \<Longrightarrow>
   save host db filename fs = Some (False, fs\<lparr>openCalls := openCalls fs @ [filename]\<rparr>)"
  by (simp add: save_def FilePrintStream_open_def Let_def)

lemma save_can_open:
  assumes "canOpen fs filename" and "toJSON host db = Some text"
  shows "save host db filename fs =
    Some (True, fs\<lparr>openCalls := openCalls fs @ [filename], files := (files fs)(filename \<mapsto> text)\<rparr>)"
  using assms
  by (simp add: save_def FilePrintStream_open_def FilePrintStream_print_def Let_def)

subsection \<open>Saving\<close>

text \<open>Claim C8. When the file cannot be opened, \<^verbatim>\<open>save\<close> returns \<^verbatim>\<open>false\<close> after the one
  call of \<^verbatim>\<open>open\<close>: no file is created or changed, and there is no second attempt. When
  the file can be opened (and the collections are within the range of the loop counters),
  \<^verbatim>\<open>save\<close> returns \<^verbatim>\<open>true\<close> and the file holds exactly the text of \<^verbatim>\<open>toJSON\<close>. The
  function is \<^verbatim>\<open>const\<close>: the database is the same before and after, so a failed
  \<^verbatim>\<open>save\<close> followed by a \<^verbatim>\<open>save\<close> to a file that can be opened writes that text
  there.\<close>

theorem save_writes_all_or_nothing:
  "(\<not> canOpen fs filename \<longrightarrow>
      save host db filename fs = Some (False, fs\<lparr>openCalls := openCalls fs @ [filename]\<rparr>))
   \<and> (canOpen fs filename \<longrightarrow> serializable db \<longrightarrow>
        (\<exists>text. toJSON host db = Some text
           \<and> save host db filename fs =
               Some (True, fs\<lparr>openCalls := openCalls fs @ [filename],
                               files := (files fs)(filename \<mapsto> text)\<rparr>)))
   \<and> (\<not> canOpen fs filename \<longrightarrow> canOpen fs filename' \<longrightarrow> serializable db \<longrightarrow>
        (\<exists>fs1 fs2 text. save host db filename fs = Some (False, fs1)
           \<and> files fs1 = files fs
           \<and> save host db filename' fs1 = Some (True, fs2)
           \<and> toJSON host db = Some text
           \<and> files fs2 = (files fs)(filename' \<mapsto> text)
           \<and> openCalls fs2 = openCalls fs @ [filename, filename']))"
proof -
  have two: "\<exists>text. toJSON host db = Some text
           \<and> save host db filename fs =
               Some (True, fs\<lparr>openCalls := openCalls fs @ [filename],
                               files := (files fs)(filename \<mapsto> text)\<rparr>)"
    if "canOpen fs filename" and "serializable db"
    using save_can_open [OF that(1) toJSON_serializable [OF that(2)]]
      toJSON_serializable [OF that(2)] by blast
  have three: "\<exists>fs1 fs2 text. save host db filename fs = Some (False, fs1)
           \<and> files fs1 = files fs
           \<and> save host db filename' fs1 = Some (True, fs2)
           \<and> toJSON host db = Some text
           \<and> files fs2 = (files fs)(filename' \<mapsto> text)
           \<and> openCalls fs2 = openCalls fs @ [filename, filename']"
    if no: "\<not> canOpen fs filename" and yes: "canOpen fs filename'" and ser: "serializable db"
  proof -
    let ?fs1 = "fs\<lparr>openCalls := openCalls fs @ [filename]\<rparr>"
    from toJSON_serializable [OF ser] obtain str where str: "toJSON host db = Some str"
      by blast
    have yes1: "canOpen ?fs1 filename'" using yes by simp
    note s1 = save_cannot_open [OF no, of host db]
    note s2 = save_can_open [OF yes1 str]
    let ?fs2 = "?fs1\<lparr>openCalls := openCalls ?fs1 @ [filename'],
        files := (files ?fs1)(filename' \<mapsto> str)\<rparr>"
    have "save host db filename fs = Some (False, ?fs1)
           \<and> files ?fs1 = files fs
           \<and> save host db filename' ?fs1 = Some (True, ?fs2)
           \<and> toJSON host db = Some str
           \<and> files ?fs2 = (files fs)(filename' \<mapsto> str)
           \<and> openCalls ?fs2 = openCalls fs @ [filename, filename']"
      by (simp add: s1 s2 str)
    then show ?thesis by blast
  qed
  from save_cannot_open [of fs filename host db] two three show ?thesis by blast
qed

theorem save_writes_all_or_nothing_witness:
  "\<not> canOpen exampleFileSystem ''/nonexistent/dir/out.json''
   \<and> canOpen exampleFileSystem ''out.json''
   \<and> serializable exampleDatabase4
   \<and> save exampleHost exampleDatabase4 ''/nonexistent/dir/out.json'' exampleFileSystem
       = Some (False, exampleFileSystem\<lparr>openCalls := [''/nonexistent/dir/out.json'']\<rparr>)
   \<and> (\<exists>text. toJSON exampleHost exampleDatabase4 = Some text
        \<and> save exampleHost exampleDatabase4 ''out.json'' exampleFileSystem
            = Some (True, exampleFileSystem\<lparr>openCalls := [''out.json''],
                 files := [''out.json'' \<mapsto> text]\<rparr>))"
proof -
  have no: "\<not> canOpen exampleFileSystem ''/nonexistent/dir/out.json''"
    and yes: "canOpen exampleFileSystem ''out.json''"
    by (simp_all add: exampleFileSystem_def)
  have ser: "serializable exampleDatabase4"
    by (simp add: serializable_def exampleDatabase4_def exampleDatabase2_def
        exampleDatabase1_def example_defs op_defs Let_def)
  have e: "openCalls exampleFileSystem = []" "files exampleFileSystem = Map.empty"
    by (simp_all add: exampleFileSystem_def)
  from save_writes_all_or_nothing
    [of exampleFileSystem "''/nonexistent/dir/out.json''" exampleHost exampleDatabase4] no e
  have c1: "save exampleHost exampleDatabase4 ''/nonexistent/dir/out.json'' exampleFileSystem
       = Some (False, exampleFileSystem\<lparr>openCalls := [''/nonexistent/dir/out.json'']\<rparr>)"
    by simp
  from save_writes_all_or_nothing
    [of exampleFileSystem "''out.json''" exampleHost exampleDatabase4] yes ser e
  have c2: "\<exists>text. toJSON exampleHost exampleDatabase4 = Some text
        \<and> save exampleHost exampleDatabase4 ''out.json'' exampleFileSystem
            = Some (True, exampleFileSystem\<lparr>openCalls := [''out.json''],
                 files := [''out.json'' \<mapsto> text]\<rparr>)"
    by simp
  from no yes ser c1 c2 show ?thesis by blast
qed

section \<open>Properties of the at-exit list\<close>

lemmas setter_defs = setShouldSaveAtExit_def setAtExitSaveFilename_def
  setNextRegisteredDatabase_def

lemma linked_update_outside:
  "q \<notin> set ps \<Longrightarrow> linked (h(q := db)) p ps = linked h p ps"
  by (induction ps arbitrary: p) auto

lemma linked_same_next:
  "\<forall>q \<in> set ps. m_nextRegisteredDatabase (h' q) = m_nextRegisteredDatabase (h q) \<Longrightarrow>
   linked h' p ps = linked h p ps"
  by (induction ps arbitrary: p) auto

lemma removeLoop_found:
  assumes "linked (heap s) (readLocation s cur) qs" and "distinct qs" and "this \<in> set qs"
    and "\<forall>c. cur = NextRegisteredDatabase c \<longrightarrow> c \<notin> set qs"
  shows "\<exists>s'. removeDatabaseFromAtExit_loop this cur s = Some s'
     \<and> linked (heap s') (readLocation s' cur) (remove1 this qs)
     \<and> (cur \<noteq> FirstDatabase \<longrightarrow> firstDatabase s' = firstDatabase s)
     \<and> (\<forall>q. q \<notin> set qs \<longrightarrow> cur \<noteq> NextRegisteredDatabase q \<longrightarrow> heap s' q = heap s q)
     \<and> (\<forall>q. heap s' q = (heap s q)\<lparr>m_nextRegisteredDatabase := m_nextRegisteredDatabase (heap s' q),
            m_shouldSaveAtExit := (m_shouldSaveAtExit (heap s q) \<and> q \<noteq> this)\<rparr>)
     \<and> s' = s\<lparr>firstDatabase := firstDatabase s', heap := heap s'\<rparr>"
  using assms
proof (induction qs arbitrary: cur)
  case Nil
  then show ?case by simp
next
  case (Cons q qs)
  from Cons.prems(1) have rd: "readLocation s cur = Some q"
    and rest: "linked (heap s) (m_nextRegisteredDatabase (heap s q)) qs"
    by simp_all
  show ?case
  proof (cases "q = this")
    case True
    let ?s1 = "writeLocation cur (m_nextRegisteredDatabase (heap s this)) s"
    let ?s2 = "setNextRegisteredDatabase this None ?s1"
    let ?s3 = "setShouldSaveAtExit this False ?s2"
    have run: "removeDatabaseFromAtExit_loop this cur s = Some ?s3"
      using rd True by (subst removeDatabaseFromAtExit_loop.simps) (simp add: Let_def)
    have notin: "this \<notin> set qs" using Cons.prems(2) True by simp
    show ?thesis
    proof (cases cur)
      case FirstDatabase
      let ?h = "(heap s)(this := (heap s this)\<lparr>m_nextRegisteredDatabase := None,
          m_shouldSaveAtExit := False\<rparr>)"
      let ?s' = "s\<lparr>firstDatabase := m_nextRegisteredDatabase (heap s this), heap := ?h\<rparr>"
      have s3: "?s3 = ?s'"
        using FirstDatabase by (simp add: setter_defs)
      have "linked ?h (m_nextRegisteredDatabase (heap s this)) qs"
        using rest True notin by (simp add: linked_update_outside)
      then have "removeDatabaseFromAtExit_loop this cur s = Some ?s'
         \<and> linked (heap ?s') (readLocation ?s' cur) (remove1 this (q # qs))
         \<and> (cur \<noteq> FirstDatabase \<longrightarrow> firstDatabase ?s' = firstDatabase s)
         \<and> (\<forall>x. x \<notin> set (q # qs) \<longrightarrow> cur \<noteq> NextRegisteredDatabase x \<longrightarrow> heap ?s' x = heap s x)
         \<and> (\<forall>x. heap ?s' x = (heap s x)\<lparr>m_nextRegisteredDatabase := m_nextRegisteredDatabase (heap ?s' x),
                m_shouldSaveAtExit := (m_shouldSaveAtExit (heap s x) \<and> x \<noteq> this)\<rparr>)
         \<and> ?s' = s\<lparr>firstDatabase := firstDatabase ?s', heap := heap ?s'\<rparr>"
        using run s3 True FirstDatabase by simp
      then show ?thesis by blast
    next
      case (NextRegisteredDatabase c)
      with Cons.prems(4) True have c: "c \<noteq> this" "c \<notin> set qs" by auto
      let ?h = "(heap s)
          (c := (heap s c)\<lparr>m_nextRegisteredDatabase := m_nextRegisteredDatabase (heap s this)\<rparr>,
           this := (heap s this)\<lparr>m_nextRegisteredDatabase := None, m_shouldSaveAtExit := False\<rparr>)"
      let ?s' = "s\<lparr>heap := ?h\<rparr>"
      have s3: "?s3 = ?s'"
        using NextRegisteredDatabase c by (simp add: setter_defs)
      have "linked ?h (m_nextRegisteredDatabase (heap s this)) qs"
        using rest True notin c by (simp add: linked_update_outside)
      then have "removeDatabaseFromAtExit_loop this cur s = Some ?s'
         \<and> linked (heap ?s') (readLocation ?s' cur) (remove1 this (q # qs))
         \<and> (cur \<noteq> FirstDatabase \<longrightarrow> firstDatabase ?s' = firstDatabase s)
         \<and> (\<forall>x. x \<notin> set (q # qs) \<longrightarrow> cur \<noteq> NextRegisteredDatabase x \<longrightarrow> heap ?s' x = heap s x)
         \<and> (\<forall>x. heap ?s' x = (heap s x)\<lparr>m_nextRegisteredDatabase := m_nextRegisteredDatabase (heap ?s' x),
                m_shouldSaveAtExit := (m_shouldSaveAtExit (heap s x) \<and> x \<noteq> this)\<rparr>)
         \<and> ?s' = s\<lparr>firstDatabase := firstDatabase ?s', heap := heap ?s'\<rparr>"
        using run s3 True NextRegisteredDatabase c by simp
      then show ?thesis by blast
    qed
  next
    case False
    have run: "removeDatabaseFromAtExit_loop this cur s
        = removeDatabaseFromAtExit_loop this (NextRegisteredDatabase q) s"
      using rd False by (subst removeDatabaseFromAtExit_loop.simps) simp
    have "\<exists>s'. removeDatabaseFromAtExit_loop this (NextRegisteredDatabase q) s = Some s'
     \<and> linked (heap s') (readLocation s' (NextRegisteredDatabase q)) (remove1 this qs)
     \<and> (NextRegisteredDatabase q \<noteq> FirstDatabase \<longrightarrow> firstDatabase s' = firstDatabase s)
     \<and> (\<forall>x. x \<notin> set qs \<longrightarrow> NextRegisteredDatabase q \<noteq> NextRegisteredDatabase x \<longrightarrow>
            heap s' x = heap s x)
     \<and> (\<forall>x. heap s' x = (heap s x)\<lparr>m_nextRegisteredDatabase := m_nextRegisteredDatabase (heap s' x),
            m_shouldSaveAtExit := (m_shouldSaveAtExit (heap s x) \<and> x \<noteq> this)\<rparr>)
     \<and> s' = s\<lparr>firstDatabase := firstDatabase s', heap := heap s'\<rparr>"
    proof (rule Cons.IH)
      show "linked (heap s) (readLocation s (NextRegisteredDatabase q)) qs" using rest by simp
      show "distinct qs" using Cons.prems(2) by simp
      show "this \<in> set qs" using Cons.prems(3) False by simp
      show "\<forall>c. NextRegisteredDatabase q = NextRegisteredDatabase c \<longrightarrow> c \<notin> set qs"
        using Cons.prems(2) by simp
    qed
    then obtain s' where s': "removeDatabaseFromAtExit_loop this (NextRegisteredDatabase q) s = Some s'"
      and l': "linked (heap s') (m_nextRegisteredDatabase (heap s' q)) (remove1 this qs)"
      and f': "firstDatabase s' = firstDatabase s"
      and u': "\<forall>x. x \<notin> set qs \<longrightarrow> q \<noteq> x \<longrightarrow> heap s' x = heap s x"
      and r': "\<forall>x. heap s' x = (heap s x)\<lparr>m_nextRegisteredDatabase := m_nextRegisteredDatabase (heap s' x),
            m_shouldSaveAtExit := (m_shouldSaveAtExit (heap s x) \<and> x \<noteq> this)\<rparr>"
      and e': "s' = s\<lparr>firstDatabase := firstDatabase s', heap := heap s'\<rparr>"
      by auto
    have rd': "readLocation s' cur = Some q"
    proof (cases cur)
      case FirstDatabase
      with rd f' show ?thesis by simp
    next
      case (NextRegisteredDatabase c)
      with Cons.prems(4) have "c \<notin> set qs" "q \<noteq> c" by auto
      with u' have "heap s' c = heap s c" by simp
      with rd NextRegisteredDatabase show ?thesis by simp
    qed
    have "linked (heap s') (readLocation s' cur) (remove1 this (q # qs))"
      using rd' l' False by simp
    moreover have "\<forall>x. x \<notin> set (q # qs) \<longrightarrow> cur \<noteq> NextRegisteredDatabase x \<longrightarrow> heap s' x = heap s x"
      using u' by simp
    ultimately show ?thesis
      using run s' f' r' e' by auto
  qed
qed

lemma serializable_registration_fields [simp]:
  "serializable (db\<lparr>m_nextRegisteredDatabase := n\<rparr>) = serializable db"
  "serializable (db\<lparr>m_shouldSaveAtExit := b\<rparr>) = serializable db"
  "serializable (db\<lparr>m_atExitSaveFilename := f\<rparr>) = serializable db"
  by (simp_all add: serializable_def)

lemma save_returns:
  assumes "serializable db"
  shows "\<exists>ok fs'. save host db filename fs = Some (ok, fs')"
proof (cases "canOpen fs filename")
  case True
  from toJSON_serializable [OF assms, of host] save_can_open [OF True] show ?thesis by blast
next
  case False
  from save_cannot_open [OF False] show ?thesis by blast
qed

lemma performAtExitSave_returns:
  assumes "serializable (heap s this)"
  shows "\<exists>fs'. performAtExitSave host this s =
    Some (s\<lparr>atExitSaves := atExitSaves s @ [(this, m_atExitSaveFilename (heap s this))],
            disk := fs'\<rparr>)"
proof -
  from save_returns [OF assms, of host "m_atExitSaveFilename (heap s this)" "disk s"]
  obtain ok fs' where
    "save host (heap s this) (m_atExitSaveFilename (heap s this)) (disk s) = Some (ok, fs')"
    by blast
  then have "performAtExitSave host this s =
    Some (s\<lparr>atExitSaves := atExitSaves s @ [(this, m_atExitSaveFilename (heap s this))],
            disk := fs'\<rparr>)"
    by (simp add: performAtExitSave_def Let_def)
  then show ?thesis ..
qed

lemma register_step:
  assumes inv: "registryInvariant s ps"
  shows "registryInvariant (registerToSaveAtExit d f s) (if d \<in> set ps then ps else d # ps)
    \<and> atExitSaves (registerToSaveAtExit d f s) = atExitSaves s
    \<and> (\<forall>q. m_atExitSaveFilename (heap (registerToSaveAtExit d f s) q)
          = (if q = d then f else m_atExitSaveFilename (heap s q)))"
proof (cases "d \<in> set ps")
  case True
  with inv have flag: "m_shouldSaveAtExit (heap s d)"
    by (simp add: registryInvariant_def)
  then have eq: "registerToSaveAtExit d f s = setAtExitSaveFilename d f s"
    by (simp add: registerToSaveAtExit_def setter_defs Let_def)
  have "linked (heap (setAtExitSaveFilename d f s)) (firstDatabase s) ps
      = linked (heap s) (firstDatabase s) ps"
    by (rule linked_same_next) (simp add: setter_defs)
  with inv True show ?thesis
    by (simp add: eq registryInvariant_def) (simp add: setter_defs)
next
  case False
  with inv have flag: "\<not> m_shouldSaveAtExit (heap s d)"
    by (simp add: registryInvariant_def)
  let ?h = "(heap s)(d := (heap s d)\<lparr>m_atExitSaveFilename := f,
      m_nextRegisteredDatabase := firstDatabase s, m_shouldSaveAtExit := True\<rparr>)"
  let ?s' = "s\<lparr>didRegisterAtExit := didRegisterAtExit s + 1,
      atexitRegistered := (if didRegisterAtExit s + 1 = 1 then atexitRegistered s + 1
                           else atexitRegistered s),
      heap := ?h, firstDatabase := Some d\<rparr>"
  have eq: "registerToSaveAtExit d f s = ?s'"
    using flag
    by (simp add: registerToSaveAtExit_def addDatabaseToAtExit_def setter_defs Let_def)
  have l: "linked ?h (firstDatabase s) ps"
    using inv False by (simp add: linked_update_outside registryInvariant_def)
  have cnt: "0 < atexitRegistered ?s'"
  proof (cases "didRegisterAtExit s = 0")
    case True
    then show ?thesis by simp
  next
    case False
    with inv have "0 < atexitRegistered s" by (simp add: registryInvariant_def)
    then show ?thesis by simp
  qed
  have "registryInvariant ?s' (d # ps)"
    using inv False l cnt by (simp add: registryInvariant_def)
  with False show ?thesis
    by (simp add: eq)
qed

lemma destruct_step:
  assumes inv: "registryInvariant s ps"
  shows "\<exists>s'. destruct host d s = Some s'
    \<and> registryInvariant s' (remove1 d ps)
    \<and> atExitSaves s' = atExitSaves s @
        (if d \<in> set ps then [(d, m_atExitSaveFilename (heap s d))] else [])
    \<and> (\<forall>q. m_atExitSaveFilename (heap s' q) = m_atExitSaveFilename (heap s q))"
proof (cases "d \<in> set ps")
  case False
  with inv have "\<not> m_shouldSaveAtExit (heap s d)"
    by (simp add: registryInvariant_def)
  then have "destruct host d s = Some s" by (simp add: destruct_def)
  with inv False show ?thesis by (simp add: remove1_idem)
next
  case True
  with inv have flag: "m_shouldSaveAtExit (heap s d)"
    by (simp add: registryInvariant_def)
  from inv have l: "linked (heap s) (readLocation s FirstDatabase) ps" and dist: "distinct ps"
    by (simp_all add: registryInvariant_def)
  from removeLoop_found [OF l dist True] obtain s1 where
    run1: "removeDatabaseFromAtExit d s = Some s1"
    and l1: "linked (heap s1) (firstDatabase s1) (remove1 d ps)"
    and h1: "\<forall>q. heap s1 q = (heap s q)\<lparr>m_nextRegisteredDatabase := m_nextRegisteredDatabase (heap s1 q),
            m_shouldSaveAtExit := (m_shouldSaveAtExit (heap s q) \<and> q \<noteq> d)\<rparr>"
    and e1: "s1 = s\<lparr>firstDatabase := firstDatabase s1, heap := heap s1\<rparr>"
    by (auto simp: removeDatabaseFromAtExit_def)
  have fn1: "m_atExitSaveFilename (heap s1 q) = m_atExitSaveFilename (heap s q)" for q
    by (subst h1 [rule_format]) simp
  have fl1: "m_shouldSaveAtExit (heap s1 q) = (m_shouldSaveAtExit (heap s q) \<and> q \<noteq> d)" for q
    by (subst h1 [rule_format]) simp
  have ser1: "serializable (heap s1 q)" for q
    using inv by (subst h1 [rule_format]) (simp add: registryInvariant_def)
  have rest1: "atExitSaves s1 = atExitSaves s" "atexitRegistered s1 = atexitRegistered s"
    "didRegisterAtExit s1 = didRegisterAtExit s"
    by (subst e1, simp)+
  from performAtExitSave_returns [where s = s1 and this = d and host = host, OF ser1] obtain fs' where
    run2: "performAtExitSave host d s1 =
      Some (s1\<lparr>atExitSaves := atExitSaves s1 @ [(d, m_atExitSaveFilename (heap s1 d))],
               disk := fs'\<rparr>)"
    by blast
  let ?s2 = "s1\<lparr>atExitSaves := atExitSaves s1 @ [(d, m_atExitSaveFilename (heap s1 d))],
               disk := fs'\<rparr>"
  have run: "destruct host d s = Some ?s2"
    using flag run1 run2 by (simp add: destruct_def)
  have "registryInvariant ?s2 (remove1 d ps)"
    using inv l1 dist fl1 ser1 rest1 by (auto simp: registryInvariant_def)
  with run True fn1 rest1 show ?thesis by simp
qed

lemma removeFirst_empty:
  "firstDatabase s = None \<Longrightarrow> removeFirstAtExitDatabase s = (None, s)"
  by (simp add: removeFirstAtExitDatabase_def)

lemma removeFirst_head:
  "firstDatabase s = Some p \<Longrightarrow>
   removeFirstAtExitDatabase s =
     (Some p, s\<lparr>firstDatabase := m_nextRegisteredDatabase (heap s p),
        heap := (heap s)(p := (heap s p)\<lparr>m_nextRegisteredDatabase := None,
                   m_shouldSaveAtExit := False\<rparr>)\<rparr>)"
  by (simp add: removeFirstAtExitDatabase_def setter_defs Let_def)

lemma atExitCallback_empty:
  "firstDatabase s = None \<Longrightarrow> atExitCallback host s = Some s"
  by (subst atExitCallback.simps) (simp add: removeFirst_empty)

lemma atExitCallback_drains:
  assumes "linked (heap s) (firstDatabase s) ps" and "distinct ps"
    and "\<forall>p. serializable (heap s p)"
  shows "\<exists>s'. atExitCallback host s = Some s'
    \<and> firstDatabase s' = None
    \<and> atExitSaves s' = atExitSaves s @ map (\<lambda>p. (p, m_atExitSaveFilename (heap s p))) ps
    \<and> (\<forall>q. heap s' q = (heap s q)\<lparr>
          m_nextRegisteredDatabase :=
            (if q \<in> set ps then None else m_nextRegisteredDatabase (heap s q)),
          m_shouldSaveAtExit := (m_shouldSaveAtExit (heap s q) \<and> q \<notin> set ps)\<rparr>)
    \<and> atexitRegistered s' = atexitRegistered s
    \<and> didRegisterAtExit s' = didRegisterAtExit s"
  using assms
proof (induction ps arbitrary: s)
  case Nil
  then have "firstDatabase s = None" by simp
  from atExitCallback_empty [OF this, of host] this show ?case by simp
next
  case (Cons p ps)
  from Cons.prems(1) have first: "firstDatabase s = Some p"
    and rest: "linked (heap s) (m_nextRegisteredDatabase (heap s p)) ps"
    by simp_all
  from Cons.prems(2) have notin: "p \<notin> set ps" and dist: "distinct ps" by simp_all
  let ?h1 = "(heap s)(p := (heap s p)\<lparr>m_nextRegisteredDatabase := None,
                   m_shouldSaveAtExit := False\<rparr>)"
  let ?s1 = "s\<lparr>firstDatabase := m_nextRegisteredDatabase (heap s p), heap := ?h1\<rparr>"
  have ser1: "serializable (heap ?s1 q)" for q
    using Cons.prems(3) by simp
  from performAtExitSave_returns [where s = ?s1 and this = p and host = host, OF ser1] obtain fs' where
    run2: "performAtExitSave host p ?s1 =
      Some (?s1\<lparr>atExitSaves := atExitSaves ?s1 @ [(p, m_atExitSaveFilename (heap ?s1 p))],
               disk := fs'\<rparr>)"
    by blast
  let ?s2 = "?s1\<lparr>atExitSaves := atExitSaves ?s1 @ [(p, m_atExitSaveFilename (heap ?s1 p))],
               disk := fs'\<rparr>"
  have unfold: "atExitCallback host s = atExitCallback host ?s2"
    using run2 by (subst atExitCallback.simps) (simp add: removeFirst_head [OF first])
  have "\<exists>s'. atExitCallback host ?s2 = Some s'
    \<and> firstDatabase s' = None
    \<and> atExitSaves s' = atExitSaves ?s2 @ map (\<lambda>p. (p, m_atExitSaveFilename (heap ?s2 p))) ps
    \<and> (\<forall>q. heap s' q = (heap ?s2 q)\<lparr>
          m_nextRegisteredDatabase :=
            (if q \<in> set ps then None else m_nextRegisteredDatabase (heap ?s2 q)),
          m_shouldSaveAtExit := (m_shouldSaveAtExit (heap ?s2 q) \<and> q \<notin> set ps)\<rparr>)
    \<and> atexitRegistered s' = atexitRegistered ?s2
    \<and> didRegisterAtExit s' = didRegisterAtExit ?s2"
  proof (rule Cons.IH)
    show "linked (heap ?s2) (firstDatabase ?s2) ps"
      using rest notin by (simp add: linked_update_outside)
    show "distinct ps" by (rule dist)
    show "\<forall>p. serializable (heap ?s2 p)" using Cons.prems(3) by simp
  qed
  then obtain s' where run: "atExitCallback host ?s2 = Some s'"
    and f': "firstDatabase s' = None"
    and a': "atExitSaves s' = atExitSaves ?s2 @ map (\<lambda>p. (p, m_atExitSaveFilename (heap ?s2 p))) ps"
    and h': "\<forall>q. heap s' q = (heap ?s2 q)\<lparr>
          m_nextRegisteredDatabase :=
            (if q \<in> set ps then None else m_nextRegisteredDatabase (heap ?s2 q)),
          m_shouldSaveAtExit := (m_shouldSaveAtExit (heap ?s2 q) \<and> q \<notin> set ps)\<rparr>"
    and c': "atexitRegistered s' = atexitRegistered ?s2" "didRegisterAtExit s' = didRegisterAtExit ?s2"
    by blast
  have a: "atExitSaves s' = atExitSaves s @ map (\<lambda>p. (p, m_atExitSaveFilename (heap s p))) (p # ps)"
    using a' notin by (auto simp: fun_upd_def)
  have h: "heap s' q = (heap s q)\<lparr>
          m_nextRegisteredDatabase :=
            (if q \<in> set (p # ps) then None else m_nextRegisteredDatabase (heap s q)),
          m_shouldSaveAtExit := (m_shouldSaveAtExit (heap s q) \<and> q \<notin> set (p # ps))\<rparr>" for q
    by (subst h' [rule_format]) simp
  from unfold run f' a h c' show ?case by auto
qed

lemma callAtExitFunctions_empty:
  "firstDatabase s = None \<Longrightarrow> callAtExitFunctions host n s = Some s"
  by (induction n) (simp_all add: atExitCallback_empty)

lemma atExitCallback_step:
  assumes inv: "registryInvariant s ps"
  shows "\<exists>s'. atExitCallback host s = Some s'
    \<and> registryInvariant s' []
    \<and> atExitSaves s' = atExitSaves s @ map (\<lambda>p. (p, m_atExitSaveFilename (heap s p))) ps
    \<and> (\<forall>q. m_atExitSaveFilename (heap s' q) = m_atExitSaveFilename (heap s q))
    \<and> atexitRegistered s' = atexitRegistered s"
proof -
  from inv have "linked (heap s) (firstDatabase s) ps" "distinct ps" "\<forall>p. serializable (heap s p)"
    by (simp_all add: registryInvariant_def)
  from atExitCallback_drains [OF this, of host] obtain s' where
    run: "atExitCallback host s = Some s'"
    and f': "firstDatabase s' = None"
    and a': "atExitSaves s' = atExitSaves s @ map (\<lambda>p. (p, m_atExitSaveFilename (heap s p))) ps"
    and h': "\<forall>q. heap s' q = (heap s q)\<lparr>
          m_nextRegisteredDatabase :=
            (if q \<in> set ps then None else m_nextRegisteredDatabase (heap s q)),
          m_shouldSaveAtExit := (m_shouldSaveAtExit (heap s q) \<and> q \<notin> set ps)\<rparr>"
    and c': "atexitRegistered s' = atexitRegistered s" "didRegisterAtExit s' = didRegisterAtExit s"
    by blast
  have fn: "m_atExitSaveFilename (heap s' q) = m_atExitSaveFilename (heap s q)" for q
    by (subst h' [rule_format]) simp
  have fl: "\<not> m_shouldSaveAtExit (heap s' q)" for q
    using inv by (subst h' [rule_format]) (simp add: registryInvariant_def)
  have ser: "serializable (heap s' q)" for q
    using inv by (subst h' [rule_format]) (simp add: registryInvariant_def)
  have "registryInvariant s' []"
    using inv f' fl ser c' by (auto simp: registryInvariant_def)
  with run a' fn c' show ?thesis by blast
qed

lemma processExit_step:
  assumes inv: "registryInvariant s ps"
  shows "\<exists>s'. processExit host s = Some s'
    \<and> registryInvariant s' []
    \<and> atExitSaves s' = atExitSaves s @ map (\<lambda>p. (p, m_atExitSaveFilename (heap s p))) ps
    \<and> (\<forall>q. m_atExitSaveFilename (heap s' q) = m_atExitSaveFilename (heap s q))"
proof (cases "atexitRegistered s")
  case 0
  with inv have "ps = []" by (auto simp: registryInvariant_def)
  with inv 0 show ?thesis by (simp add: processExit_def)
next
  case (Suc n)
  from atExitCallback_step [OF inv, of host] obtain s' where
    run: "atExitCallback host s = Some s'"
    and inv': "registryInvariant s' []"
    and rest: "atExitSaves s' = atExitSaves s @ map (\<lambda>p. (p, m_atExitSaveFilename (heap s p))) ps"
      "\<forall>q. m_atExitSaveFilename (heap s' q) = m_atExitSaveFilename (heap s q)"
    by blast
  from inv' have "firstDatabase s' = None" by (simp add: registryInvariant_def)
  then have "callAtExitFunctions host n s' = Some s'" by (rule callAtExitFunctions_empty)
  with run Suc have "processExit host s = Some s'" by (simp add: processExit_def)
  with inv' rest show ?thesis by blast
qed

lemma saves_of_drain:
  "distinct ps \<Longrightarrow>
   map snd (filter (\<lambda>(p, filename). p = d) (map (\<lambda>p. (p, f p)) ps))
     = (if d \<in> set ps then [f d] else [])"
  by (induction ps) auto

lemma applyProcessOp_step:
  assumes inv: "registryInvariant s ps"
  shows "\<exists>s' ps'. applyProcessOp host op s = Some s' \<and> registryInvariant s' ps'
    \<and> (d \<in> set ps' \<longleftrightarrow> (registers d op \<or> d \<in> set ps) \<and> \<not> ends d op)
    \<and> m_atExitSaveFilename (heap s' d)
        = (case op of RegisterToSaveAtExit this filename \<Rightarrow>
             if this = d then filename else m_atExitSaveFilename (heap s d)
           | _ \<Rightarrow> m_atExitSaveFilename (heap s d))
    \<and> savesOf d s' = savesOf d s @
        (if ends d op \<and> d \<in> set ps then [m_atExitSaveFilename (heap s d)] else [])"
proof (cases op)
  case (RegisterToSaveAtExit this filename)
  from register_step [OF inv, of this filename] RegisterToSaveAtExit show ?thesis
    by (intro exI [of _ "registerToSaveAtExit this filename s"]
        exI [of _ "if this \<in> set ps then ps else this # ps"])
       (auto simp: savesOf_def)
next
  case (Destruct this)
  from destruct_step [OF inv, of host this] obtain s' where
    run: "destruct host this s = Some s'"
    and inv': "registryInvariant s' (remove1 this ps)"
    and a': "atExitSaves s' = atExitSaves s @
        (if this \<in> set ps then [(this, m_atExitSaveFilename (heap s this))] else [])"
    and fn: "\<forall>q. m_atExitSaveFilename (heap s' q) = m_atExitSaveFilename (heap s q)"
    by blast
  from inv have dist: "distinct ps" by (simp add: registryInvariant_def)
  have mem: "d \<in> set (remove1 this ps) \<longleftrightarrow> d \<in> set ps \<and> d \<noteq> this"
    using dist by auto
  from run inv' a' fn mem Destruct show ?thesis
    by (intro exI [of _ s'] exI [of _ "remove1 this ps"]) (auto simp: savesOf_def)
next
  case ProcessExit
  from processExit_step [OF inv, of host] obtain s' where
    run: "processExit host s = Some s'"
    and inv': "registryInvariant s' []"
    and a': "atExitSaves s' = atExitSaves s @ map (\<lambda>p. (p, m_atExitSaveFilename (heap s p))) ps"
    and fn: "\<forall>q. m_atExitSaveFilename (heap s' q) = m_atExitSaveFilename (heap s q)"
    by blast
  from inv have dist: "distinct ps" by (simp add: registryInvariant_def)
  from run inv' a' fn ProcessExit saves_of_drain [OF dist, of d "\<lambda>p. m_atExitSaveFilename (heap s p)"]
  show ?thesis
    by (intro exI [of _ s'] exI [of _ "[]"]) (auto simp: savesOf_def)
qed

lemma runProcess_append:
  "runProcess host (xs @ ys) s = Option.bind (runProcess host xs s) (runProcess host ys)"
proof (induction xs arbitrary: s)
  case Nil
  then show ?case by simp
next
  case (Cons x xs)
  then show ?case by (cases "applyProcessOp host x s") simp_all
qed

lemma runProcess_before_end:
  assumes "registryInvariant s ps" and "\<not> list_ex (ends d) ops"
  shows "\<exists>s' ps'. runProcess host ops s = Some s' \<and> registryInvariant s' ps'
    \<and> savesOf d s' = savesOf d s
    \<and> (case lastRegistered d ops of
          Some path \<Rightarrow> d \<in> set ps' \<and> m_atExitSaveFilename (heap s' d) = path
        | None \<Rightarrow> (d \<in> set ps' \<longleftrightarrow> d \<in> set ps)
            \<and> m_atExitSaveFilename (heap s' d) = m_atExitSaveFilename (heap s d))"
  using assms
proof (induction ops arbitrary: s ps)
  case Nil
  then show ?case by auto
next
  case (Cons op ops)
  from Cons.prems(2) have ne: "\<not> ends d op" and nes: "\<not> list_ex (ends d) ops" by simp_all
  from applyProcessOp_step [OF Cons.prems(1), of host op d] ne obtain s1 ps1 where
    step: "applyProcessOp host op s = Some s1" and inv1: "registryInvariant s1 ps1"
    and mem1: "d \<in> set ps1 \<longleftrightarrow> registers d op \<or> d \<in> set ps"
    and fn1: "m_atExitSaveFilename (heap s1 d)
        = (case op of RegisterToSaveAtExit this filename \<Rightarrow>
             if this = d then filename else m_atExitSaveFilename (heap s d)
           | _ \<Rightarrow> m_atExitSaveFilename (heap s d))"
    and sv1: "savesOf d s1 = savesOf d s"
    by auto
  from Cons.IH [OF inv1 nes] obtain s' ps' where
    run: "runProcess host ops s1 = Some s'" and inv': "registryInvariant s' ps'"
    and sv': "savesOf d s' = savesOf d s1"
    and last': "case lastRegistered d ops of
          Some path \<Rightarrow> d \<in> set ps' \<and> m_atExitSaveFilename (heap s' d) = path
        | None \<Rightarrow> (d \<in> set ps' \<longleftrightarrow> d \<in> set ps1)
            \<and> m_atExitSaveFilename (heap s' d) = m_atExitSaveFilename (heap s1 d)"
    by blast
  have "case lastRegistered d (op # ops) of
          Some path \<Rightarrow> d \<in> set ps' \<and> m_atExitSaveFilename (heap s' d) = path
        | None \<Rightarrow> (d \<in> set ps' \<longleftrightarrow> d \<in> set ps)
            \<and> m_atExitSaveFilename (heap s' d) = m_atExitSaveFilename (heap s d)"
    using last' mem1 fn1 by (cases op) (auto split: option.splits)
  with step run inv' sv' sv1 show ?case by auto
qed

lemma runProcess_after_end:
  assumes "registryInvariant s ps" and "d \<notin> set ps" and "\<not> list_ex (registers d) ops"
  shows "\<exists>s' ps'. runProcess host ops s = Some s' \<and> registryInvariant s' ps'
    \<and> d \<notin> set ps' \<and> savesOf d s' = savesOf d s"
  using assms
proof (induction ops arbitrary: s ps)
  case Nil
  then show ?case by auto
next
  case (Cons op ops)
  from Cons.prems(3) have nr: "\<not> registers d op" and nrs: "\<not> list_ex (registers d) ops"
    by simp_all
  from applyProcessOp_step [OF Cons.prems(1), of host op d] nr Cons.prems(2) obtain s1 ps1 where
    step: "applyProcessOp host op s = Some s1" and inv1: "registryInvariant s1 ps1"
    and mem1: "d \<notin> set ps1" and sv1: "savesOf d s1 = savesOf d s"
    by auto
  from Cons.IH [OF inv1 mem1 nrs] obtain s' ps' where
    "runProcess host ops s1 = Some s'" "registryInvariant s' ps'" "d \<notin> set ps'"
    "savesOf d s' = savesOf d s1"
    by blast
  with step sv1 show ?case by auto
qed


lemma applyProcessOp_registry:
  assumes inv: "registryInvariant s ps"
  shows "\<exists>s'. applyProcessOp host op s = Some s' \<and> registryInvariant s' (registryStep op ps)"
proof (cases op)
  case (RegisterToSaveAtExit this filename)
  with register_step [OF inv, of this filename] show ?thesis by simp
next
  case (Destruct this)
  with destruct_step [OF inv, of host this] show ?thesis by auto
next
  case ProcessExit
  with processExit_step [OF inv, of host] show ?thesis by auto
qed

lemma runProcess_registry:
  assumes "registryInvariant s ps"
  shows "\<exists>s'. runProcess host ops s = Some s' \<and> registryInvariant s' (registryAfter ops ps)"
  using assms
proof (induction ops arbitrary: s ps)
  case Nil
  then show ?case by simp
next
  case (Cons op ops)
  from applyProcessOp_registry [OF Cons.prems, of host op] obtain s1 where
    step: "applyProcessOp host op s = Some s1"
    and inv1: "registryInvariant s1 (registryStep op ps)"
    by blast
  from Cons.IH [OF inv1] step show ?case by simp
qed

text \<open>The constructor gives a database that is not registered and leaves the list
  alone.\<close>

lemma construct_step:
  assumes inv: "registryInvariant s ps" and fresh: "this \<notin> set ps"
  shows "registryInvariant (construct this vm s) ps
    \<and> \<not> m_shouldSaveAtExit (heap (construct this vm s) this)
    \<and> atExitSaves (construct this vm s) = atExitSaves s"
proof -
  have "linked ((heap s)(this := snd (Database_ctor (databaseCounter s) vm))) (firstDatabase s) ps"
    using inv fresh by (simp add: linked_update_outside registryInvariant_def)
  with inv fresh show ?thesis
    by (auto simp: construct_def Database_ctor_def registryInvariant_def serializable_def)
qed


lemma exampleProcess_invariant: "registryInvariant exampleProcess []"
  by (simp add: registryInvariant_def exampleProcess_def serializable_def example_defs)

subsection \<open>The at-exit list\<close>



subsection \<open>One save for a registered database\<close>





text \<open>The end is needed as well. While neither the destructor of \<open>d\<close> nor the exit of the
  process is called, \<open>d\<close> is not saved: after its registration it waits on the list,
  with \<^verbatim>\<open>m_shouldSaveAtExit\<close> set and the file name of its last registration. So a
  database that is registered only after \<^verbatim>\<open>atExitCallback\<close> has run is not saved
  unless its destructor is called.\<close>

lemma registered_database_waits_for_end:
  assumes inv: "registryInvariant s ps" and none: "\<not> list_ex (ends d) ops"
    and last: "lastRegistered d ops = Some path"
  shows "\<exists>s'. runProcess host ops s = Some s'
    \<and> savesOf d s' = savesOf d s
    \<and> m_shouldSaveAtExit (heap s' d)
    \<and> m_atExitSaveFilename (heap s' d) = path"
proof -
  from runProcess_before_end [OF inv none, of host] last obtain s' ps' where
    run: "runProcess host ops s = Some s'" and inv': "registryInvariant s' ps'"
    and sv: "savesOf d s' = savesOf d s"
    and mem: "d \<in> set ps'" and fn: "m_atExitSaveFilename (heap s' d) = path"
    by auto
  from inv' mem have "m_shouldSaveAtExit (heap s' d)"
    by (simp add: registryInvariant_def)
  with run sv fn show ?thesis by blast
qed

text \<open>The database at address 2 is registered after the process has exited and saved
  the database at address 1: it is on the list and has not been saved.\<close>

lemma registered_after_exit_not_saved:
  "\<exists>s'. runProcess exampleHost
      [RegisterToSaveAtExit 1 ''a.json'', ProcessExit, RegisterToSaveAtExit 2 ''b.json'']
      exampleProcess = Some s'
    \<and> savesOf 2 s' = [] \<and> m_shouldSaveAtExit (heap s' 2)"
proof -
  from runProcess_registry [OF exampleProcess_invariant, of exampleHost
      "[RegisterToSaveAtExit 1 ''a.json'', ProcessExit]"]
  obtain s1 where run1: "runProcess exampleHost
      [RegisterToSaveAtExit 1 ''a.json'', ProcessExit] exampleProcess = Some s1"
    and inv1: "registryInvariant s1 []"
    by auto
  from runProcess_after_end [OF exampleProcess_invariant, of 2
      "[RegisterToSaveAtExit 1 ''a.json'', ProcessExit]" exampleHost] run1
  have sv1: "savesOf 2 s1 = []"
    by (auto simp: savesOf_def exampleProcess_def)
  from registered_database_waits_for_end
    [OF inv1, of 2 "[RegisterToSaveAtExit 2 ''b.json'']" "''b.json''" exampleHost]
  obtain s2 where run2: "runProcess exampleHost [RegisterToSaveAtExit 2 ''b.json''] s1 = Some s2"
    and sv2: "savesOf 2 s2 = savesOf 2 s1" and fl: "m_shouldSaveAtExit (heap s2 2)"
    by auto
  from run1 run2 have "runProcess exampleHost
      ([RegisterToSaveAtExit 1 ''a.json'', ProcessExit] @ [RegisterToSaveAtExit 2 ''b.json''])
      exampleProcess = Some s2"
    by (simp only: runProcess_append) simp
  with sv1 sv2 fl show ?thesis by simp
qed

end
